theory Spec2Isabelle
  imports Main "HOL-Library.Word"
begin

section \<open>JavaScript strings\<close>

text \<open>
  A JavaScript string is a sequence of UTF-16 code units and \<open>s.length\<close> is the number
  of code units, so a string is modelled as a list of 16-bit words. The translated text
  is Thai, whose letters all lie above the 8-bit range.
\<close>

type_synonym jschar = "16 word"
type_synonym jsstring = "jschar list"

text \<open>
  The code units matched by the regular expression class \<open>\s\<close> (without the unicode
  flag) and stripped by \<open>String.prototype.trim\<close>: ECMAScript's WhiteSpace and
  LineTerminator productions. Both built-ins use the same set.
\<close>

definition is_ws :: "jschar \<Rightarrow> bool" where
  "is_ws c =
     (c = 0x9 \<or> c = 0xA \<or> c = 0xB \<or> c = 0xC \<or> c = 0xD \<or> c = 0x20 \<or> c = 0xA0 \<or>
      c = 0x1680 \<or> (0x2000 \<le> c \<and> c \<le> 0x200A) \<or> c = 0x2028 \<or> c = 0x2029 \<or>
      c = 0x202F \<or> c = 0x205F \<or> c = 0x3000 \<or> c = 0xFEFF)"

text \<open>The code unit of the string literal \<open>" "\<close>.\<close>

definition SP :: jschar where
  "SP = 0x20"

text \<open>An ASCII literal of the source as a JavaScript string.\<close>

definition js :: "string \<Rightarrow> jsstring" where
  "js s = map of_char s"

text \<open>
  \<open>text.split(/\s+/)\<close>: the pieces of the text between the maximal runs of whitespace.
  A text that begins with whitespace has an empty first piece, a text that ends with
  whitespace has an empty last piece, and the empty text has the single piece \<open>""\<close>.
\<close>

function split_ws :: "jsstring \<Rightarrow> jsstring list" where
  "split_ws s =
     takeWhile (\<lambda>c. \<not> is_ws c) s #
       (case dropWhile (\<lambda>c. \<not> is_ws c) s of
          [] \<Rightarrow> []
        | r # rs \<Rightarrow> split_ws (dropWhile is_ws rs))"
  by pat_completeness auto
termination
proof (relation "measure length")
  show "wf (measure (length :: jsstring \<Rightarrow> nat))" by simp
next
  fix s :: jsstring and r rs
  assume d: "dropWhile (\<lambda>c. \<not> is_ws c) s = r # rs"
  have "length (dropWhile is_ws rs) \<le> length rs"
    by (rule length_dropWhile_le)
  moreover have "length (r # rs) \<le> length s"
    using length_dropWhile_le [of "\<lambda>c. \<not> is_ws c" s] d by simp
  ultimately show "(dropWhile is_ws rs, s) \<in> measure length" by simp
qed

declare split_ws.simps [simp del]

text \<open>
  \<open>s.trim()\<close>: the string without its leading and trailing whitespace, that is
  \<open>s.trimStart().trimEnd()\<close>.
\<close>

definition trimStart :: "jsstring \<Rightarrow> jsstring" where
  "trimStart s = dropWhile is_ws s"

definition trimEnd :: "jsstring \<Rightarrow> jsstring" where
  "trimEnd s = rev (dropWhile is_ws (rev s))"

definition trim :: "jsstring \<Rightarrow> jsstring" where
  "trim s = trimEnd (trimStart s)"

section \<open>splitTextIntoChunks\<close>

text \<open>
  The \<open>for (const word of words)\<close> loop of \<open>splitTextIntoChunks\<close> together with the
  push of the last running chunk that follows it. A string is truthy when it is not
  empty.
\<close>

fun chunk_loop :: "int \<Rightarrow> jsstring list \<Rightarrow> jsstring list \<Rightarrow> jsstring \<Rightarrow> jsstring list" where
  "chunk_loop maxLength [] chunks currentChunk =
     (if currentChunk \<noteq> [] then chunks @ [trim currentChunk] else chunks)"
| "chunk_loop maxLength (word # words) chunks currentChunk =
     (if int (length (currentChunk @ [SP] @ word)) > maxLength \<and> currentChunk \<noteq> []
      then chunk_loop maxLength words (chunks @ [trim currentChunk]) word
      else chunk_loop maxLength words chunks
             (if currentChunk \<noteq> [] then currentChunk @ [SP] @ word else word))"

definition splitTextIntoChunks :: "jsstring \<Rightarrow> int \<Rightarrow> jsstring list" where
  "splitTextIntoChunks text maxLength =
     (if int (length text) \<le> maxLength then [text]
      else chunk_loop maxLength (split_ws text) [] [])"

text \<open>
  A chunk that is not empty and neither begins nor ends with whitespace: what
  \<open>trim\<close> leaves of a running chunk.
\<close>

definition clean :: "jsstring \<Rightarrow> bool" where
  "clean c = (c \<noteq> [] \<and> \<not> is_ws (hd c) \<and> \<not> is_ws (last c))"

section \<open>The playback cycle and the highlight sequence\<close>

text \<open>
  What the playback code does to the world outside it, in the order it does it:
  \<^item> \<open>PlayRecording\<close>: \<open>playAudio\<close> creates an \<open>Audio\<close> element for the recorded blob and
    calls \<open>play()\<close> on it;
  \<^item> \<open>Sleep ms\<close>: \<open>sleep(ms)\<close> arms a timer of \<open>ms\<close> milliseconds;
  \<^item> \<open>RequestTTS chunk\<close>: \<open>playNextChunk\<close> creates an \<open>Audio\<close> element on the synthesis
    endpoint's URL for \<open>chunk\<close>, sets its playback rate to 0.5 and calls \<open>play()\<close>;
  \<^item> \<open>WebSpeech text\<close>: \<open>fallbackToWebSpeech\<close> cancels the on-device synthesizer and hands
    it an utterance of \<open>text\<close> at rate 0.5.
\<close>

datatype effect = PlayRecording | Sleep nat | RequestTTS jsstring | WebSpeech jsstring

text \<open>
  The part of the \<open>LanguageLearner\<close> object and of the page that the playback code reads
  and writes. \<open>highlighted\<close> holds, for each element of
  \<open>thaiEl.querySelectorAll(".thai-word")\<close> in document order, whether its class list has
  \<open>highlighted\<close>. \<open>completion\<close> is the promise returned by \<open>speakThaiWithHighlighting\<close>:
  \<open>None\<close> while it is pending, \<open>Some hs\<close> once \<open>resolve()\<close> has run, where \<open>hs\<close> are the
  highlight flags at that moment.
\<close>

record app =
  currentThai :: jsstring
  highlighted :: "bool list"
  effects :: "effect list"
  completion :: "bool list option"

text \<open>
  The browser's side. An \<open>Audio\<close> element created for a chunk receives a sequence of
  events before it ends, if it ends: \<open>play\<close> (handler \<open>onplay\<close>), \<open>error\<close> (handler
  \<open>onerror\<close>) and the rejection of the promise returned by \<open>play()\<close> (its \<open>catch\<close>
  handler); \<open>ended\<close> tells whether the \<open>ended\<close> event follows them.
\<close>

datatype audio_event = EvPlay | EvError | EvRejected

datatype playback = Playback (events: "audio_event list") (ended: bool)

text \<open>
  \<open>recording\<close>: whether the element playing the recording fires \<open>ended\<close> or \<open>error\<close>
  (\<open>playAudio\<close> resolves on either). \<open>tts i\<close>: what happens to the element created for
  chunk \<open>i\<close>. \<open>speech n\<close>: whether the \<open>n\<close>-th utterance handed to the on-device synthesizer
  fires \<open>end\<close> or \<open>error\<close> (\<open>fallbackToWebSpeech\<close> resolves on either).
\<close>

record environment =
  recording :: bool
  tts :: "nat \<Rightarrow> playback"
  speech :: "nat \<Rightarrow> bool"

text \<open>The chunks requested from the synthesis endpoint and the texts given to the fallback.\<close>

definition requested :: "effect list \<Rightarrow> jsstring list" where
  "requested es = concat (map (\<lambda>e. case e of RequestTTS c \<Rightarrow> [c] | _ \<Rightarrow> []) es)"

definition spoken :: "effect list \<Rightarrow> jsstring list" where
  "spoken es = concat (map (\<lambda>e. case e of WebSpeech t \<Rightarrow> [t] | _ \<Rightarrow> []) es)"

text \<open>\<open>resolve()\<close>: settles the promise; a promise that is settled stays as it is.\<close>

definition resolve :: "app \<Rightarrow> app" where
  "resolve st =
     (case completion st of
        None \<Rightarrow> st\<lparr>completion := Some (highlighted st)\<rparr>
      | Some hs \<Rightarrow> st)"

text \<open>
  \<open>fallbackToWebSpeech(text)\<close>: speaks the text with the on-device synthesizer; the
  boolean tells whether the promise it returns resolves.
\<close>

definition fallbackToWebSpeech :: "environment \<Rightarrow> jsstring \<Rightarrow> app \<Rightarrow> app \<times> bool" where
  "fallbackToWebSpeech env text st =
     (st\<lparr>effects := effects st @ [WebSpeech text]\<rparr>,
      speech env (length (spoken (effects st))))"

text \<open>
  The loop \<open>for (let i = 0; i < chunkIndex; i++) wordStartIndex += chunks[i].split(/\s+/).length\<close>.
\<close>

definition wordStartIndex :: "jsstring list \<Rightarrow> nat \<Rightarrow> nat" where
  "wordStartIndex chunks chunkIndex =
     fold (\<lambda>i start. start + length (split_ws (chunks ! i))) [0..<chunkIndex] 0"

text \<open>
  \<open>audio.onplay\<close>: \<open>words.forEach((word, index) => ...)\<close> adds the class to the words of
  the range and removes it from every other word.
\<close>

definition onplay :: "nat \<Rightarrow> nat \<Rightarrow> app \<Rightarrow> app" where
  "onplay start n st =
     st\<lparr>highlighted :=
          map (\<lambda>index. if index \<ge> start \<and> index < start + n then True else False)
            [0..<length (highlighted st)]\<rparr>"

text \<open>
  \<open>audio.onerror\<close> and the \<open>catch\<close> handler of \<open>audio.play()\<close>, which have the same body:
  \<open>this.fallbackToWebSpeech(this.currentThai).then(resolve)\<close>. The text is read from
  the object when the handler runs. The fallback's promise, if it resolves, is taken to
  resolve before the next event of the element is handled.
\<close>

definition onerror :: "environment \<Rightarrow> app \<Rightarrow> app" where
  "onerror env st =
     (case fallbackToWebSpeech env (currentThai st) st of
        (st', finished) \<Rightarrow> if finished then resolve st' else st')"

fun audio_handler :: "environment \<Rightarrow> nat \<Rightarrow> nat \<Rightarrow> audio_event \<Rightarrow> app \<Rightarrow> app" where
  "audio_handler env start n EvPlay st = onplay start n st"
| "audio_handler env start n EvError st = onerror env st"
| "audio_handler env start n EvRejected st = onerror env st"

text \<open>
  The body of \<open>playNextChunk\<close> for a chunk that exists: the element is created for
  \<open>chunks[chunkIndex]\<close>, the word range is computed, the handlers are installed and
  \<open>play()\<close> is called; then the element's events reach their handlers.
\<close>

definition chunk_audio :: "environment \<Rightarrow> jsstring list \<Rightarrow> nat \<Rightarrow> app \<Rightarrow> app" where
  "chunk_audio env chunks chunkIndex st =
     (let chunk = chunks ! chunkIndex;
          chunkWords = split_ws chunk
      in fold (audio_handler env (wordStartIndex chunks chunkIndex) (length chunkWords))
           (events (tts env chunkIndex))
           (st\<lparr>effects := effects st @ [RequestTTS chunk]\<rparr>))"

text \<open>
  \<open>playNextChunk\<close>: past the last chunk it removes the class from every word and
  resolves; otherwise it plays the chunk, and \<open>audio.onended\<close> increments \<open>chunkIndex\<close>
  and calls \<open>playNextChunk\<close> again.
\<close>

function playNextChunk :: "environment \<Rightarrow> jsstring list \<Rightarrow> nat \<Rightarrow> app \<Rightarrow> app" where
  "playNextChunk env chunks chunkIndex st =
     (if chunkIndex \<ge> length chunks
      then resolve (st\<lparr>highlighted := map (\<lambda>word. False) (highlighted st)\<rparr>)
      else if ended (tts env chunkIndex)
        then playNextChunk env chunks (chunkIndex + 1) (chunk_audio env chunks chunkIndex st)
        else chunk_audio env chunks chunkIndex st)"
  by pat_completeness auto
termination
  by (relation "measure (\<lambda>(env, chunks, chunkIndex, st). length chunks - chunkIndex)") auto

declare playNextChunk.simps [simp del]

text \<open>
  \<open>speakThaiWithHighlighting\<close>: a new promise; the empty text and the text that
  \<open>translateToThai\<close> stores when the translation fails resolve it at once.
\<close>

definition speakThaiWithHighlighting :: "environment \<Rightarrow> app \<Rightarrow> app" where
  "speakThaiWithHighlighting env st0 =
     (let st = st0\<lparr>completion := None\<rparr>
      in if currentThai st = [] \<or> currentThai st = js ''Translation failed''
         then resolve st
         else playNextChunk env (splitTextIntoChunks (currentThai st) 200) 0 st)"

text \<open>
  \<open>playAudio(blob)\<close> and \<open>sleep(ms)\<close>; the boolean tells whether the promise resolves.
  A timer always fires.
\<close>

definition playAudio :: "environment \<Rightarrow> app \<Rightarrow> app \<times> bool" where
  "playAudio env st = (st\<lparr>effects := effects st @ [PlayRecording]\<rparr>, recording env)"

definition sleep :: "nat \<Rightarrow> app \<Rightarrow> app \<times> bool" where
  "sleep ms st = (st\<lparr>effects := effects st @ [Sleep ms]\<rparr>, True)"

text \<open>
  \<open>playbackCycle\<close>: three awaited steps. A step whose promise stays pending suspends
  the cycle for good.
\<close>

definition playbackCycle :: "environment \<Rightarrow> app \<Rightarrow> app" where
  "playbackCycle env st =
     (case playAudio env st of
        (st1, played) \<Rightarrow>
          if \<not> played then st1
          else (case sleep 500 st1 of
                  (st2, woken) \<Rightarrow>
                    if \<not> woken then st2 else speakThaiWithHighlighting env st2))"

section \<open>Whitespace normalisation\<close>

text \<open>
  Joining a sequence of strings with single spaces, as the specification's property of
  the chunker does (\<open>chunks.join(" ")\<close>).
\<close>

fun join_sp :: "jsstring list \<Rightarrow> jsstring" where
  "join_sp [] = []"
| "join_sp [x] = x"
| "join_sp (x # y # ys) = x @ [SP] @ join_sp (y # ys)"

text \<open>
  Whitespace normalisation in the specification's words: every maximal run of whitespace
  is replaced by a single space, and leading and trailing whitespace is removed.
\<close>

function collapse_ws :: "jsstring \<Rightarrow> jsstring" where
  "collapse_ws [] = []"
| "collapse_ws (c # cs) =
     (if is_ws c then SP # collapse_ws (dropWhile is_ws cs) else c # collapse_ws cs)"
  by pat_completeness auto
termination
  by (relation "measure length") (auto simp: le_imp_less_Suc length_dropWhile_le)

definition normalize_ws :: "jsstring \<Rightarrow> jsstring" where
  "normalize_ws s = trim (collapse_ws s)"

section \<open>Facts about the string built-ins\<close>

lemma is_ws_SP: "is_ws SP"
  by (simp add: is_ws_def SP_def)

lemma split_ws_Nil: "split_ws [] = [[]]"
  by (simp add: split_ws.simps)

lemma split_ws_not_Nil: "split_ws s \<noteq> []"
  by (subst split_ws.simps) simp

lemma split_ws_ws_Cons:
  "is_ws c \<Longrightarrow> split_ws (c # cs) = [] # split_ws (dropWhile is_ws cs)"
  by (subst split_ws.simps) simp

lemma split_ws_no_ws:
  "w \<in> set (split_ws s) \<Longrightarrow> c \<in> set w \<Longrightarrow> \<not> is_ws c"
proof (induction s rule: split_ws.induct)
  case (1 s)
  show ?case
  proof (cases "dropWhile (\<lambda>c. \<not> is_ws c) s")
    case Nil
    with "1.prems" show ?thesis
      by (subst (asm) split_ws.simps) (auto dest: set_takeWhileD)
  next
    case (Cons r rs)
    from "1.prems"(1) Cons
    have "w = takeWhile (\<lambda>c. \<not> is_ws c) s \<or> w \<in> set (split_ws (dropWhile is_ws rs))"
      by (subst (asm) split_ws.simps) simp
    then show ?thesis
      using "1.IH" [OF Cons] "1.prems"(2) by (auto dest: set_takeWhileD)
  qed
qed

lemma split_ws_all_ws:
  assumes "\<forall>c\<in>set s. is_ws c"
  shows "split_ws s = (if s = [] then [[]] else [[], []])"
proof (cases s)
  case Nil
  then show ?thesis by (simp add: split_ws_Nil)
next
  case (Cons c cs)
  from assms Cons have c: "is_ws c" by simp
  from assms Cons have d: "dropWhile is_ws cs = []" by simp
  show ?thesis unfolding Cons by (simp add: split_ws_ws_Cons [OF c] d split_ws_Nil)
qed

lemma trimEnd_Nil: "trimEnd [] = []"
  by (simp add: trimEnd_def)

lemma trimEnd_id: "s = [] \<or> \<not> is_ws (last s) \<Longrightarrow> trimEnd s = s"
  by (cases s rule: rev_cases) (auto simp: trimEnd_def)

lemma trimEnd_snoc_ws: "is_ws c \<Longrightarrow> trimEnd (s @ [c]) = trimEnd s"
  by (simp add: trimEnd_def)

lemma trimEnd_append:
  "trimEnd (a @ b) = (if trimEnd b = [] then trimEnd a else a @ trimEnd b)"
  by (auto simp: trimEnd_def dropWhile_append)

lemma trimEnd_last: "trimEnd s \<noteq> [] \<Longrightarrow> \<not> is_ws (last (trimEnd s))"
  using hd_dropWhile [of is_ws "rev s"] by (simp add: trimEnd_def last_rev)

lemma trimEnd_hd: "s \<noteq> [] \<Longrightarrow> \<not> is_ws (hd s) \<Longrightarrow> trimEnd s \<noteq> [] \<and> hd (trimEnd s) = hd s"
proof (cases s)
  case Nil
  assume "s \<noteq> []" with Nil show ?thesis by simp
next
  case (Cons c cs)
  assume "\<not> is_ws (hd s)"
  with Cons have c: "\<not> is_ws c" by simp
  have "trimEnd ([c] @ cs) = (if trimEnd cs = [] then trimEnd [c] else [c] @ trimEnd cs)"
    by (rule trimEnd_append)
  moreover have "trimEnd [c] = [c]" using c by (simp add: trimEnd_def)
  ultimately show ?thesis using Cons by auto
qed

lemma length_trimEnd: "length (trimEnd s) \<le> length s"
  using length_dropWhile_le [of is_ws "rev s"] by (simp add: trimEnd_def)

lemma length_trim: "length (trim s) \<le> length s"
  using length_trimEnd [of "trimStart s"] length_dropWhile_le [of is_ws s]
  by (simp add: trim_def trimStart_def)

lemma trimStart_id: "s = [] \<or> \<not> is_ws (hd s) \<Longrightarrow> trimStart s = s"
  by (cases s) (auto simp: trimStart_def)

lemma trim_no_ws: "\<forall>c\<in>set w. \<not> is_ws c \<Longrightarrow> trim w = w"
proof -
  assume a: "\<forall>c\<in>set w. \<not> is_ws c"
  then have "trimStart w = w" by (cases w) (auto simp: trimStart_def)
  moreover have "trimEnd w = w" using a by (intro trimEnd_id) (cases w rule: rev_cases, auto)
  ultimately show ?thesis by (simp add: trim_def)
qed

lemma trim_clean:
  "cur \<noteq> [] \<Longrightarrow> \<not> is_ws (hd cur) \<Longrightarrow>
     trim cur \<noteq> [] \<and> hd (trim cur) = hd cur \<and> \<not> is_ws (last (trim cur))"
  using trimEnd_hd [of cur] trimEnd_last [of cur] by (simp add: trim_def trimStart_id)


lemma chunk_loop_push:
  "int (length (cur @ [SP] @ word)) > m \<and> cur \<noteq> [] \<Longrightarrow>
     chunk_loop m (word # words) chunks cur = chunk_loop m words (chunks @ [trim cur]) word"
  by simp

lemma chunk_loop_keep:
  "\<not> (int (length (cur @ [SP] @ word)) > m \<and> cur \<noteq> []) \<Longrightarrow>
     chunk_loop m (word # words) chunks cur =
     chunk_loop m words chunks (if cur \<noteq> [] then cur @ [SP] @ word else word)"
  by auto

lemma chunk_loop_clean:
  assumes "\<forall>w\<in>set words. \<forall>c\<in>set w. \<not> is_ws c"
    and "\<forall>c\<in>set chunks. clean c"
    and "cur = [] \<or> \<not> is_ws (hd cur)"
  shows "\<forall>c\<in>set (chunk_loop m words chunks cur). clean c"
  using assms
proof (induction words arbitrary: chunks cur)
  case Nil
  then show ?case using trim_clean [of cur] by (auto simp: clean_def)
next
  case (Cons word words)
  have w: "word = [] \<or> \<not> is_ws (hd word)"
    using Cons.prems(1) by (cases word) auto
  have ws: "\<forall>w\<in>set words. \<forall>c\<in>set w. \<not> is_ws c"
    using Cons.prems(1) by simp
  show ?case
  proof (cases "int (length (cur @ [SP] @ word)) > m \<and> cur \<noteq> []")
    case True
    then have "clean (trim cur)"
      using Cons.prems(3) trim_clean [of cur] by (simp add: clean_def)
    then have "\<forall>c\<in>set (chunks @ [trim cur]). clean c"
      using Cons.prems(2) by simp
    from Cons.IH [OF ws this w] show ?thesis by (simp only: chunk_loop_push [OF True])
  next
    case False
    let ?cur' = "if cur \<noteq> [] then cur @ [SP] @ word else word"
    have "?cur' = [] \<or> \<not> is_ws (hd ?cur')"
      using Cons.prems(3) w by auto
    from Cons.IH [OF ws Cons.prems(2) this] show ?thesis by (simp only: chunk_loop_keep [OF False])
  qed
qed

lemma chunk_loop_bounded:
  assumes "\<forall>w\<in>set words. w \<in> W \<and> (\<forall>c\<in>set w. \<not> is_ws c)"
    and "\<forall>c\<in>set chunks. int (length c) \<le> m \<or> (c \<in> W \<and> (\<forall>x\<in>set c. \<not> is_ws x))"
    and "cur = [] \<or> int (length cur) \<le> m \<or> (cur \<in> W \<and> (\<forall>x\<in>set cur. \<not> is_ws x))"
  shows "\<forall>c\<in>set (chunk_loop m words chunks cur).
           int (length c) \<le> m \<or> (c \<in> W \<and> (\<forall>x\<in>set c. \<not> is_ws x))"
  using assms
proof (induction words arbitrary: chunks cur)
  case Nil
  have "cur \<noteq> [] \<longrightarrow>
      int (length (trim cur)) \<le> m \<or> (trim cur \<in> W \<and> (\<forall>x\<in>set (trim cur). \<not> is_ws x))"
    using Nil.prems(3) length_trim [of cur] trim_no_ws [of cur] by auto
  then show ?case using Nil.prems(2) by auto
next
  case (Cons word words)
  have ws: "\<forall>w\<in>set words. w \<in> W \<and> (\<forall>c\<in>set w. \<not> is_ws c)"
    using Cons.prems(1) by simp
  have w: "word = [] \<or> int (length word) \<le> m \<or> (word \<in> W \<and> (\<forall>x\<in>set word. \<not> is_ws x))"
    using Cons.prems(1) by simp
  show ?case
  proof (cases "int (length (cur @ [SP] @ word)) > m \<and> cur \<noteq> []")
    case True
    have "int (length (trim cur)) \<le> m \<or> (trim cur \<in> W \<and> (\<forall>x\<in>set (trim cur). \<not> is_ws x))"
      using True Cons.prems(3) length_trim [of cur] trim_no_ws [of cur] by auto
    then have "\<forall>c\<in>set (chunks @ [trim cur]).
        int (length c) \<le> m \<or> (c \<in> W \<and> (\<forall>x\<in>set c. \<not> is_ws x))"
      using Cons.prems(2) by simp
    from Cons.IH [OF ws this w] show ?thesis by (simp only: chunk_loop_push [OF True])
  next
    case False
    let ?cur' = "if cur \<noteq> [] then cur @ [SP] @ word else word"
    have "?cur' = [] \<or> int (length ?cur') \<le> m \<or> (?cur' \<in> W \<and> (\<forall>x\<in>set ?cur'. \<not> is_ws x))"
      using False w by auto
    from Cons.IH [OF ws Cons.prems(2) this] show ?thesis by (simp only: chunk_loop_keep [OF False])
  qed
qed

section \<open>The chunks joined again\<close>

lemma join_sp_Cons: "join_sp (x # xs) = (if xs = [] then x else x @ SP # join_sp xs)"
  by (cases xs) simp_all

lemma join_sp_merge:
  "join_sp (a @ (x @ SP # y) # zs) = join_sp (a @ x # y # zs)"
  by (induction a) (simp_all add: join_sp_Cons)

lemma collapse_ws_append:
  "\<forall>c\<in>set w. \<not> is_ws c \<Longrightarrow> collapse_ws (w @ r) = w @ collapse_ws r"
  by (induction w) simp_all

lemma collapse_ws_hd:
  "s \<noteq> [] \<Longrightarrow> \<not> is_ws (hd s) \<Longrightarrow> collapse_ws s \<noteq> [] \<and> hd (collapse_ws s) = hd s"
  by (cases s) simp_all

lemma split_ws_word:
  assumes "dropWhile (\<lambda>c. \<not> is_ws c) s = r # rs"
  shows "split_ws s = takeWhile (\<lambda>c. \<not> is_ws c) s # split_ws (dropWhile is_ws rs)"
  using assms by (subst split_ws.simps) simp

lemma split_ws_last_word:
  assumes "dropWhile (\<lambda>c. \<not> is_ws c) s = []"
  shows "split_ws s = [s]"
proof -
  have t: "takeWhile (\<lambda>c. \<not> is_ws c) s = s" using assms by simp
  show ?thesis by (subst split_ws.simps) (simp only: assms t list.simps)
qed

lemma collapse_ws_word:
  assumes "dropWhile (\<lambda>c. \<not> is_ws c) s = r # rs"
  shows "collapse_ws s =
         takeWhile (\<lambda>c. \<not> is_ws c) s @ SP # collapse_ws (dropWhile is_ws rs)"
proof -
  have r: "is_ws r" using hd_dropWhile [of "\<lambda>c. \<not> is_ws c" s] assms by simp
  have "collapse_ws s = collapse_ws (takeWhile (\<lambda>c. \<not> is_ws c) s @ r # rs)"
    using takeWhile_dropWhile_id [of "\<lambda>c. \<not> is_ws c" s] assms by simp
  also have "\<dots> = takeWhile (\<lambda>c. \<not> is_ws c) s @ collapse_ws (r # rs)"
    by (rule collapse_ws_append) (auto dest: set_takeWhileD)
  finally show ?thesis using r by simp
qed

lemma dropWhile_ws_ltrimmed:
  "dropWhile is_ws rs = [] \<or> \<not> is_ws (hd (dropWhile is_ws rs))"
  using hd_dropWhile [of is_ws rs] by blast

lemma split_ws_interior:
  "s = [] \<or> \<not> is_ws (hd s) \<Longrightarrow> [] \<notin> set (butlast (split_ws s))"
proof (induction s rule: split_ws.induct)
  case (1 s)
  show ?case
  proof (cases "dropWhile (\<lambda>c. \<not> is_ws c) s")
    case Nil
    then show ?thesis by (simp add: split_ws_last_word)
  next
    case (Cons r rs)
    have "s \<noteq> []" using Cons by auto
    with "1.prems" have "takeWhile (\<lambda>c. \<not> is_ws c) s \<noteq> []"
      by (cases s) auto
    moreover have "[] \<notin> set (butlast (split_ws (dropWhile is_ws rs)))"
      using "1.IH" [OF Cons dropWhile_ws_ltrimmed] .
    ultimately show ?thesis
      by (simp add: split_ws_word [OF Cons] split_ws_not_Nil)
  qed
qed

lemma trimEnd_collapse:
  "s = [] \<or> \<not> is_ws (hd s) \<Longrightarrow>
     trimEnd (collapse_ws s) = join_sp (filter (\<lambda>w. w \<noteq> []) (split_ws s))"
proof (induction s rule: split_ws.induct)
  case (1 s)
  let ?w = "takeWhile (\<lambda>c. \<not> is_ws c) s"
  have now: "\<forall>c\<in>set ?w. \<not> is_ws c" by (auto dest: set_takeWhileD)
  have tw: "trimEnd ?w = ?w"
    by (rule trimEnd_id) (cases ?w rule: rev_cases, use now in auto)
  show ?case
  proof (cases "dropWhile (\<lambda>c. \<not> is_ws c) s")
    case Nil
    then have sw: "?w = s" by simp
    have "collapse_ws s = s"
      using collapse_ws_append [OF now, of "[]"] sw by simp
    then show ?thesis using tw sw by (simp add: split_ws_last_word [OF Nil] trimEnd_Nil)
  next
    case (Cons r rs)
    let ?s' = "dropWhile is_ws rs"
    have "s \<noteq> []" using Cons by auto
    with "1.prems" have wne: "?w \<noteq> []" by (cases s) auto
    have IH: "trimEnd (collapse_ws ?s') = join_sp (filter (\<lambda>w. w \<noteq> []) (split_ws ?s'))"
      using "1.IH" [OF Cons dropWhile_ws_ltrimmed] .
    have c: "collapse_ws s = ?w @ SP # collapse_ws ?s'" by (rule collapse_ws_word [OF Cons])
    have sp: "split_ws s = ?w # split_ws ?s'" by (rule split_ws_word [OF Cons])
    show ?thesis
    proof (cases "?s' = []")
      case True
      have "trimEnd (collapse_ws s) = trimEnd (?w @ [SP])" using c True by simp
      also have "\<dots> = ?w" using tw by (simp add: trimEnd_snoc_ws is_ws_SP)
      finally show ?thesis using sp True wne by (simp add: split_ws_Nil)
    next
      case False
      then have h: "\<not> is_ws (hd ?s')" using dropWhile_ws_ltrimmed [of rs] by blast
      have cne: "collapse_ws ?s' \<noteq> []" "\<not> is_ws (hd (collapse_ws ?s'))"
        using collapse_ws_hd [OF False h] h by simp_all
      have tne: "trimEnd (collapse_ws ?s') \<noteq> []"
        using trimEnd_hd [OF cne] by simp
      then have "trimEnd (SP # collapse_ws ?s') \<noteq> []"
        using trimEnd_append [of "[SP]" "collapse_ws ?s'"] by simp
      then have "trimEnd (collapse_ws s) = ?w @ trimEnd (SP # collapse_ws ?s')"
        using c trimEnd_append [of ?w "SP # collapse_ws ?s'"] by simp
      also have "\<dots> = ?w @ SP # trimEnd (collapse_ws ?s')"
        using tne trimEnd_append [of "[SP]" "collapse_ws ?s'"] by simp
      finally have t: "trimEnd (collapse_ws s) =
          ?w @ SP # join_sp (filter (\<lambda>w. w \<noteq> []) (split_ws ?s'))"
        using IH by simp
      have "filter (\<lambda>w. w \<noteq> []) (split_ws ?s') \<noteq> []"
        using tne IH by auto
      then show ?thesis using t sp wne by (simp add: join_sp_Cons)
    qed
  qed
qed


lemma trim_clean_id: "clean cur \<Longrightarrow> trim cur = cur"
  by (simp add: clean_def trim_def trimStart_id trimEnd_id)

lemma trim_snoc_SP: "clean cur \<Longrightarrow> trim (cur @ [SP]) = cur"
proof -
  assume c: "clean cur"
  then have "trimStart (cur @ [SP]) = cur @ [SP]"
    by (intro trimStart_id) (simp add: clean_def)
  then show ?thesis
    using c by (simp add: trim_def trimEnd_snoc_ws is_ws_SP trimEnd_id clean_def)
qed

lemma chunk_loop_join:
  assumes "\<forall>w\<in>set words. \<forall>c\<in>set w. \<not> is_ws c"
    and "[] \<notin> set (butlast words)"
    and "cur = [] \<or> clean cur"
  shows "join_sp (chunk_loop m words chunks cur) =
         join_sp (chunks @ (if cur = [] then [] else [cur]) @ filter (\<lambda>w. w \<noteq> []) words)"
  using assms
proof (induction words arbitrary: chunks cur)
  case Nil
  then show ?case by (auto simp: trim_clean_id)
next
  case (Cons word words)
  have ws: "\<forall>w\<in>set words. \<forall>c\<in>set w. \<not> is_ws c"
    using Cons.prems(1) by simp
  have bl: "[] \<notin> set (butlast words)"
    using Cons.prems(2) by (cases words) auto
  show ?case
  proof (cases "word = []")
    case True
    with Cons.prems(2) have e: "words = []" by (cases words) auto
    show ?thesis
    proof (cases "cur = []")
      case c: True
      then show ?thesis using True e by simp
    next
      case c: False
      then have "clean cur" using Cons.prems(3) by simp
      then show ?thesis
        using True e c by (simp add: trim_clean_id trim_snoc_SP)
    qed
  next
    case False
    have wc: "clean word"
    proof -
      have "\<forall>c\<in>set word. \<not> is_ws c" using Cons.prems(1) by simp
      with False show ?thesis
        using hd_in_set [of word] last_in_set [of word] by (simp add: clean_def)
    qed
    show ?thesis
    proof (cases "int (length (cur @ [SP] @ word)) > m \<and> cur \<noteq> []")
      case push: True
      then have cc: "clean cur" using Cons.prems(3) by simp
      have "join_sp (chunk_loop m words (chunks @ [trim cur]) word) =
          join_sp ((chunks @ [trim cur]) @ (if word = [] then [] else [word]) @
                   filter (\<lambda>w. w \<noteq> []) words)"
        using wc by (intro Cons.IH [OF ws bl]) simp
      then show ?thesis
        using False push cc by (simp only: chunk_loop_push [OF push]) (simp add: trim_clean_id)
    next
      case keep: False
      let ?cur' = "if cur \<noteq> [] then cur @ [SP] @ word else word"
      have cl: "clean ?cur'" using wc Cons.prems(3) by (auto simp: clean_def)
      have IH: "join_sp (chunk_loop m words chunks ?cur') =
          join_sp (chunks @ (if ?cur' = [] then [] else [?cur']) @
                   filter (\<lambda>w. w \<noteq> []) words)"
        using cl by (intro Cons.IH [OF ws bl]) simp
      show ?thesis
      proof (cases "cur = []")
        case True
        with IH False show ?thesis by (simp only: chunk_loop_keep [OF keep]) simp
      next
        case c: False
        have "join_sp (chunks @ (cur @ SP # word) # filter (\<lambda>w. w \<noteq> []) words) =
            join_sp (chunks @ cur # word # filter (\<lambda>w. w \<noteq> []) words)"
          by (rule join_sp_merge)
        with IH False c show ?thesis by (simp only: chunk_loop_keep [OF keep]) simp
      qed
    qed
  qed
qed

lemma chunk_loop_leading_empty:
  "chunk_loop m ([] # words) [] [] = chunk_loop m words [] []"
  by simp

lemma chunk_loop_normalize:
  "join_sp (chunk_loop m (split_ws s) [] []) = normalize_ws s"
proof -
  have ltr: "join_sp (chunk_loop m (split_ws t) [] []) = trim (collapse_ws t)"
    if t: "t = [] \<or> \<not> is_ws (hd t)" for t
  proof -
    have "join_sp (chunk_loop m (split_ws t) [] []) =
        join_sp ([] @ (if ([]::jsstring) = [] then [] else [[]]) @
                 filter (\<lambda>w. w \<noteq> []) (split_ws t))"
      by (rule chunk_loop_join) (auto dest: split_ws_no_ws simp: split_ws_interior [OF t])
    also have "\<dots> = trimEnd (collapse_ws t)"
      using trimEnd_collapse [OF t] by simp
    also have "\<dots> = trim (collapse_ws t)"
    proof -
      have "collapse_ws t = [] \<or> \<not> is_ws (hd (collapse_ws t))"
        using t collapse_ws_hd [of t] by (cases "t = []") auto
      then show ?thesis by (simp add: trim_def trimStart_id)
    qed
    finally show ?thesis .
  qed
  show ?thesis
  proof (cases "s = [] \<or> \<not> is_ws (hd s)")
    case True
    then show ?thesis by (simp add: ltr normalize_ws_def)
  next
    case False
    then obtain c cs where s: "s = c # cs" and c: "is_ws c" by (cases s) auto
    let ?t = "dropWhile is_ws cs"
    have "trim (collapse_ws s) = trim (SP # collapse_ws ?t)" using s c by simp
    also have "\<dots> = trim (collapse_ws ?t)"
      by (simp add: trim_def trimStart_def is_ws_SP)
    finally have n: "normalize_ws s = trim (collapse_ws ?t)" by (simp add: normalize_ws_def)
    have "chunk_loop m (split_ws s) [] [] = chunk_loop m (split_ws ?t) [] []"
      unfolding s split_ws_ws_Cons [OF c] by (rule chunk_loop_leading_empty)
    then show ?thesis using n ltr [OF dropWhile_ws_ltrimmed] by simp
  qed
qed

lemma normalize_ws_tokens:
  "normalize_ws s = join_sp (filter (\<lambda>w. w \<noteq> []) (split_ws s))"
proof -
  have ltr: "trim (collapse_ws t) = join_sp (filter (\<lambda>w. w \<noteq> []) (split_ws t))"
    if t: "t = [] \<or> \<not> is_ws (hd t)" for t
  proof -
    have "collapse_ws t = [] \<or> \<not> is_ws (hd (collapse_ws t))"
      using t collapse_ws_hd [of t] by (cases "t = []") auto
    then have "trim (collapse_ws t) = trimEnd (collapse_ws t)"
      by (simp add: trim_def trimStart_id)
    then show ?thesis using trimEnd_collapse [OF t] by simp
  qed
  show ?thesis
  proof (cases "s = [] \<or> \<not> is_ws (hd s)")
    case True
    then show ?thesis by (simp add: ltr normalize_ws_def)
  next
    case False
    then obtain c cs where s: "s = c # cs" and c: "is_ws c" by (cases s) auto
    let ?t = "dropWhile is_ws cs"
    have "trim (collapse_ws s) = trim (SP # collapse_ws ?t)" using s c by simp
    also have "\<dots> = trim (collapse_ws ?t)"
      by (simp add: trim_def trimStart_def is_ws_SP)
    finally have "normalize_ws s = join_sp (filter (\<lambda>w. w \<noteq> []) (split_ws ?t))"
      using ltr [OF dropWhile_ws_ltrimmed] by (simp add: normalize_ws_def)
    then show ?thesis unfolding s split_ws_ws_Cons [OF c] by simp
  qed
qed

lemma split_ws_word_SP:
  assumes "\<forall>c\<in>set u. \<not> is_ws c"
  shows "split_ws (u @ SP # v) = u # split_ws (dropWhile is_ws v)"
proof -
  have d: "dropWhile (\<lambda>c. \<not> is_ws c) (u @ SP # v) = SP # v"
    using assms by (simp add: is_ws_SP)
  have t: "takeWhile (\<lambda>c. \<not> is_ws c) (u @ SP # v) = u"
    using assms by (simp add: is_ws_SP)
  show ?thesis using split_ws_word [OF d] t by simp
qed

lemma split_ws_join_sp:
  assumes "\<forall>w\<in>set ws. w \<noteq> [] \<and> (\<forall>c\<in>set w. \<not> is_ws c)"
  shows "split_ws (join_sp ws) = (if ws = [] then [[]] else ws)"
  using assms
proof (induction ws)
  case Nil
  show ?case by (simp add: split_ws_Nil)
next
  case (Cons w ws)
  have w: "\<forall>c\<in>set w. \<not> is_ws c" using Cons.prems by simp
  show ?case
  proof (cases ws)
    case Nil
    have "dropWhile (\<lambda>c. \<not> is_ws c) w = []" using w by simp
    then have "split_ws w = [w]" by (rule split_ws_last_word)
    then show ?thesis using Nil by simp
  next
    case (Cons v vs)
    have v: "v \<noteq> []" "\<forall>c\<in>set v. \<not> is_ws c" using Cons.prems Cons by simp_all
    have "hd (join_sp ws) = hd v" "join_sp ws \<noteq> []"
      using Cons v(1) by (simp_all add: join_sp_Cons)
    then have "\<not> is_ws (hd (join_sp ws))" using v hd_in_set [of v] by simp
    then have "dropWhile is_ws (join_sp ws) = join_sp ws"
      using \<open>join_sp ws \<noteq> []\<close> by (cases "join_sp ws") auto
    moreover have "split_ws (join_sp ws) = ws"
      using Cons.IH Cons.prems Cons by simp
    ultimately show ?thesis
      using Cons split_ws_word_SP [OF w, of "join_sp ws"] by (simp add: join_sp_Cons)
  qed
qed

lemma normalize_ws_idem: "normalize_ws (normalize_ws s) = normalize_ws s"
proof -
  let ?F = "filter (\<lambda>w. w \<noteq> []) (split_ws s)"
  have F: "\<forall>w\<in>set ?F. w \<noteq> [] \<and> (\<forall>c\<in>set w. \<not> is_ws c)"
    by (auto dest: split_ws_no_ws)
  have "normalize_ws (join_sp ?F) =
      join_sp (filter (\<lambda>w. w \<noteq> []) (split_ws (join_sp ?F)))"
    by (rule normalize_ws_tokens)
  also have "\<dots> = join_sp ?F"
    using F by (simp add: split_ws_join_sp [OF F])
  finally show ?thesis by (simp add: normalize_ws_tokens)
qed

lemma split_ws_last:
  "s \<noteq> [] \<Longrightarrow> \<not> is_ws (last s) \<Longrightarrow> last (split_ws s) \<noteq> []"
proof (induction s rule: split_ws.induct)
  case (1 s)
  show ?case
  proof (cases "dropWhile (\<lambda>c. \<not> is_ws c) s")
    case Nil
    then show ?thesis using "1.prems"(1) by (simp add: split_ws_last_word)
  next
    case (Cons r rs)
    have r: "is_ws r" using hd_dropWhile [of "\<lambda>c. \<not> is_ws c" s] Cons by simp
    have "s = takeWhile (\<lambda>c. \<not> is_ws c) s @ r # rs"
      using takeWhile_dropWhile_id [of "\<lambda>c. \<not> is_ws c" s] Cons by simp
    then have "last s = last (r # rs)" by (metis last_appendR list.distinct(1))
    with "1.prems"(2) r have rs: "rs \<noteq> []" "\<not> is_ws (last rs)" by (auto split: if_splits)
    then have "last rs \<in> set rs" by simp
    with rs(2) have d: "dropWhile is_ws rs \<noteq> []" by auto
    have "rs = takeWhile is_ws rs @ dropWhile is_ws rs" by simp
    then have "last rs = last (dropWhile is_ws rs)" using d by (metis last_appendR)
    with rs(2) have "last (split_ws (dropWhile is_ws rs)) \<noteq> []"
      using "1.IH" [OF Cons d] by simp
    then show ?thesis by (simp add: split_ws_word [OF Cons] split_ws_not_Nil)
  qed
qed

lemma split_ws_clean:
  assumes "clean c"
  shows "[] \<notin> set (split_ws c)"
proof -
  have "[] \<notin> set (butlast (split_ws c))"
    using assms by (intro split_ws_interior) (simp add: clean_def)
  moreover have "last (split_ws c) \<noteq> []"
    using assms by (intro split_ws_last) (simp_all add: clean_def)
  moreover have "split_ws c = butlast (split_ws c) @ [last (split_ws c)]"
    by (simp add: split_ws_not_Nil)
  ultimately show ?thesis by (metis Un_iff empty_iff empty_set set_ConsD set_append)
qed

section \<open>Whole words\<close>

lemma length_split_ws_piece:
  "w \<in> set (split_ws s) \<Longrightarrow> length w \<le> length s"
proof (induction s rule: split_ws.induct)
  case (1 s)
  have t: "length (takeWhile (\<lambda>c. \<not> is_ws c) s) \<le> length s"
    by (rule length_takeWhile_le)
  show ?case
  proof (cases "dropWhile (\<lambda>c. \<not> is_ws c) s")
    case Nil
    with "1.prems" show ?thesis by (simp add: split_ws_last_word)
  next
    case (Cons r rs)
    have "length (r # rs) \<le> length s"
      using length_dropWhile_le [of "\<lambda>c. \<not> is_ws c" s] Cons by simp
    moreover have "length (dropWhile is_ws rs) \<le> length rs"
      by (rule length_dropWhile_le)
    ultimately have l: "length (dropWhile is_ws rs) \<le> length s" by simp
    from "1.prems" have "w = takeWhile (\<lambda>c. \<not> is_ws c) s \<or>
        w \<in> set (split_ws (dropWhile is_ws rs))"
      by (simp add: split_ws_word [OF Cons])
    then show ?thesis using t l "1.IH" [OF Cons] by auto
  qed
qed

lemma chunk_loop_keeps_chunks:
  "set chunks \<subseteq> set (chunk_loop m words chunks cur)"
proof (induction words arbitrary: chunks cur)
  case Nil
  show ?case by auto
next
  case (Cons word words)
  show ?case
  proof (cases "int (length (cur @ [SP] @ word)) > m \<and> cur \<noteq> []")
    case True
    show ?thesis
      using Cons.IH [of "chunks @ [trim cur]" word]
      by (simp only: chunk_loop_push [OF True]) simp
  next
    case False
    show ?thesis
      using Cons.IH [of chunks "if cur \<noteq> [] then cur @ [SP] @ word else word"]
      by (simp only: chunk_loop_keep [OF False])
  qed
qed

lemma chunk_loop_overlong_running:
  assumes "cur \<noteq> []" and "\<forall>c\<in>set cur. \<not> is_ws c" and "int (length cur) > m"
  shows "cur \<in> set (chunk_loop m words chunks cur)"
proof (cases words)
  case Nil
  then show ?thesis using assms by (simp add: trim_no_ws)
next
  case (Cons word rest)
  have push: "int (length (cur @ [SP] @ word)) > m \<and> cur \<noteq> []" using assms by simp
  have "cur \<in> set (chunks @ [trim cur])" using assms(2) by (simp add: trim_no_ws)
  then show ?thesis
    using chunk_loop_keeps_chunks [of "chunks @ [trim cur]" m rest word]
    unfolding Cons chunk_loop_push [OF push] by blast
qed

lemma chunk_loop_overlong_word:
  assumes "\<forall>w\<in>set words. \<forall>c\<in>set w. \<not> is_ws c"
    and "w \<in> set words" and "w \<noteq> []" and "int (length w) > m"
  shows "w \<in> set (chunk_loop m words chunks cur)"
  using assms(1,2)
proof (induction words arbitrary: chunks cur)
  case Nil
  then show ?case by simp
next
  case (Cons word words)
  have ws: "\<forall>w\<in>set words. \<forall>c\<in>set w. \<not> is_ws c" using Cons.prems(1) by simp
  show ?case
  proof (cases "w = word")
    case True
    have nw: "\<forall>c\<in>set word. \<not> is_ws c" using Cons.prems(1) by simp
    have run: "word \<in> set (chunk_loop m words cs word)" for cs
      using assms(3,4) nw True by (intro chunk_loop_overlong_running) simp_all
    show ?thesis
    proof (cases "int (length (cur @ [SP] @ word)) > m \<and> cur \<noteq> []")
      case push: True
      show ?thesis using run True by (simp only: chunk_loop_push [OF push])
    next
      case keep: False
      have "int (length (cur @ [SP] @ word)) > m" using assms(4) True by simp
      with keep have "cur = []" by blast
      then show ?thesis using run True by (simp only: chunk_loop_keep [OF keep]) simp
    qed
  next
    case False
    with Cons.prems(2) have m: "w \<in> set words" by simp
    show ?thesis
    proof (cases "int (length (cur @ [SP] @ word)) > m \<and> cur \<noteq> []")
      case push: True
      show ?thesis using Cons.IH [OF ws m] by (simp only: chunk_loop_push [OF push])
    next
      case keep: False
      show ?thesis using Cons.IH [OF ws m] by (simp only: chunk_loop_keep [OF keep])
    qed
  qed
qed

lemma split_ws_append_SP:
  "a \<noteq> [] \<Longrightarrow> \<not> is_ws (last a) \<Longrightarrow>
     split_ws (a @ SP # b) = split_ws a @ split_ws (dropWhile is_ws b)"
proof (induction a rule: split_ws.induct)
  case (1 a)
  show ?case
  proof (cases "dropWhile (\<lambda>c. \<not> is_ws c) a")
    case Nil
    then have nw: "\<forall>c\<in>set a. \<not> is_ws c" by simp
    show ?thesis
      using split_ws_word_SP [OF nw, of b] by (simp add: split_ws_last_word [OF Nil])
  next
    case (Cons r rs)
    let ?w = "takeWhile (\<lambda>c. \<not> is_ws c) a"
    have r: "is_ws r" using hd_dropWhile [of "\<lambda>c. \<not> is_ws c" a] Cons by simp
    have a: "a = ?w @ r # rs"
      using takeWhile_dropWhile_id [of "\<lambda>c. \<not> is_ws c" a] Cons by simp
    then have "last a = last (r # rs)" by (metis last_appendR list.distinct(1))
    with "1.prems"(2) r have rs: "rs \<noteq> []" "\<not> is_ws (last rs)" by (auto split: if_splits)
    then have "last rs \<in> set rs" by simp
    with rs(2) have ex: "\<exists>x\<in>set rs. \<not> is_ws x" by blast
    then have d: "dropWhile is_ws rs \<noteq> []" by simp
    have "rs = takeWhile is_ws rs @ dropWhile is_ws rs" by simp
    then have la: "last (dropWhile is_ws rs) = last rs" using d by (metis last_appendR)
    have nww: "\<forall>c\<in>set ?w. \<not> is_ws c" by (auto dest: set_takeWhileD)
    have "dropWhile (\<lambda>c. \<not> is_ws c) (?w @ r # (rs @ SP # b)) = r # (rs @ SP # b)"
      using nww r by simp
    moreover have "takeWhile (\<lambda>c. \<not> is_ws c) (?w @ r # (rs @ SP # b)) = ?w"
      using nww r by simp
    ultimately have s1: "split_ws (?w @ r # (rs @ SP # b)) =
        ?w # split_ws (dropWhile is_ws (rs @ SP # b))"
      using split_ws_word [of "?w @ r # (rs @ SP # b)" r "rs @ SP # b"] by simp
    have s2: "dropWhile is_ws (rs @ SP # b) = dropWhile is_ws rs @ SP # b"
      using ex by (auto simp: dropWhile_append)
    have s3: "split_ws (dropWhile is_ws rs @ SP # b) =
        split_ws (dropWhile is_ws rs) @ split_ws (dropWhile is_ws b)"
      using "1.IH" [OF Cons d] la rs(2) by simp
    have eq: "a @ SP # b = ?w @ r # (rs @ SP # b)"
      using a by (metis append.assoc append_Cons)
    have "split_ws (a @ SP # b) = split_ws (?w @ r # (rs @ SP # b))"
      by (simp only: eq)
    also have "\<dots> = ?w # split_ws (dropWhile is_ws rs) @ split_ws (dropWhile is_ws b)"
      by (simp only: s1 s2 s3)
    also have "\<dots> = split_ws a @ split_ws (dropWhile is_ws b)"
      by (simp add: split_ws_word [OF Cons])
    finally show ?thesis .
  qed
qed

lemma chunk_loop_whole_words:
  assumes "\<forall>w\<in>set words. w \<in> W \<and> (\<forall>c\<in>set w. \<not> is_ws c)"
    and "[] \<notin> set (butlast words)"
    and "\<forall>c\<in>set chunks. set (split_ws c) \<subseteq> W"
    and "cur = [] \<or> (clean cur \<and> set (split_ws cur) \<subseteq> W)"
  shows "\<forall>c\<in>set (chunk_loop m words chunks cur). set (split_ws c) \<subseteq> W"
  using assms
proof (induction words arbitrary: chunks cur)
  case Nil
  then show ?case by (auto simp: trim_clean_id)
next
  case (Cons word words)
  have ws: "\<forall>w\<in>set words. w \<in> W \<and> (\<forall>c\<in>set w. \<not> is_ws c)"
    using Cons.prems(1) by simp
  have bl: "[] \<notin> set (butlast words)"
    using Cons.prems(2) by (cases words) auto
  have pushed: "\<forall>c\<in>set (chunks @ [trim cur]). set (split_ws c) \<subseteq> W" if "cur \<noteq> []"
    using that Cons.prems(3,4) by (auto simp: trim_clean_id)
  show ?case
  proof (cases "word = []")
    case True
    with Cons.prems(2) have e: "words = []" by (cases words) auto
    show ?thesis
    proof (cases "cur = []")
      case c: True
      then show ?thesis using True e Cons.prems(3) by simp
    next
      case c: False
      then have "clean cur" "set (split_ws cur) \<subseteq> W" using Cons.prems(4) by simp_all
      then show ?thesis
        using True e c Cons.prems(3) by (auto simp: trim_clean_id trim_snoc_SP)
    qed
  next
    case False
    have nw: "\<forall>c\<in>set word. \<not> is_ws c" and wW: "word \<in> W" using Cons.prems(1) by simp_all
    have wc: "clean word"
      using False nw hd_in_set [of word] last_in_set [of word] by (simp add: clean_def)
    have "dropWhile (\<lambda>c. \<not> is_ws c) word = []" using nw by simp
    then have sw: "split_ws word = [word]" by (rule split_ws_last_word)
    have dw: "dropWhile is_ws word = word" using wc by (cases word) (auto simp: clean_def)
    show ?thesis
    proof (cases "int (length (cur @ [SP] @ word)) > m \<and> cur \<noteq> []")
      case push: True
      have "\<forall>c\<in>set (chunk_loop m words (chunks @ [trim cur]) word). set (split_ws c) \<subseteq> W"
        using pushed push wc sw wW by (intro Cons.IH [OF ws bl]) simp_all
      then show ?thesis by (simp only: chunk_loop_push [OF push])
    next
      case keep: False
      let ?cur' = "if cur \<noteq> [] then cur @ [SP] @ word else word"
      have "clean ?cur' \<and> set (split_ws ?cur') \<subseteq> W"
      proof (cases "cur = []")
        case True
        then show ?thesis using wc sw wW by simp
      next
        case c: False
        then have cc: "clean cur" "set (split_ws cur) \<subseteq> W" using Cons.prems(4) by simp_all
        have "split_ws (cur @ SP # word) = split_ws cur @ [word]"
          using split_ws_append_SP [of cur word] cc(1) sw dw by (simp add: clean_def)
        moreover have "clean (cur @ SP # word)" using cc(1) wc by (simp add: clean_def)
        ultimately show ?thesis using c cc(2) wW by simp
      qed
      then have "\<forall>c\<in>set (chunk_loop m words chunks ?cur'). set (split_ws c) \<subseteq> W"
        using Cons.prems(3) by (intro Cons.IH [OF ws bl]) simp_all
      then show ?thesis by (simp only: chunk_loop_keep [OF keep])
    qed
  qed
qed

lemma chunk_loop_split_whole_words:
  "\<forall>c\<in>set (chunk_loop m (split_ws s) [] []). set (split_ws c) \<subseteq> set (split_ws s)"
proof -
  have ltr: "\<forall>c\<in>set (chunk_loop m (split_ws t) [] []). set (split_ws c) \<subseteq> set (split_ws t)"
    if t: "t = [] \<or> \<not> is_ws (hd t)" for t
    by (rule chunk_loop_whole_words) (auto dest: split_ws_no_ws simp: split_ws_interior [OF t])
  show ?thesis
  proof (cases "s = [] \<or> \<not> is_ws (hd s)")
    case True
    then show ?thesis by (rule ltr)
  next
    case False
    then obtain c cs where s: "s = c # cs" and c: "is_ws c" by (cases s) auto
    show ?thesis
      using ltr [OF dropWhile_ws_ltrimmed, of cs]
      unfolding s split_ws_ws_Cons [OF c] chunk_loop_leading_empty by auto
  qed
qed

section \<open>Short texts\<close>

text \<open>
  C4. A text whose length does not exceed \<open>maxLength\<close> is returned as the only chunk,
  unchanged.
\<close>

theorem chunk_short_text:
  "int (length s) \<le> maxLength \<Longrightarrow> splitTextIntoChunks s maxLength = [s]"
  by (simp add: splitTextIntoChunks_def)

theorem chunk_short_text_witness:
  "int (length (js ''hello world'')) \<le> 200 \<and>
   splitTextIntoChunks (js ''hello world'') 200 = [js ''hello world'']"
  using chunk_short_text [of "js ''hello world''" 200] by (simp add: js_def)

section \<open>The empty text\<close>

text \<open>
  The empty text has length 0, so with a \<open>maxLength\<close> that is not negative the first
  line of \<open>splitTextIntoChunks\<close> returns it as the only chunk. The result is a sequence
  of one element, the empty string, not a sequence of no elements.
\<close>

theorem chunk_empty_text_counterexample:
  "splitTextIntoChunks [] 200 \<noteq> []"
  by (simp add: splitTextIntoChunks_def)

text \<open>
  C7 (as amended). \<open>splitTextIntoChunks\<close> is a total function with no error result. For
  the empty text it returns the one-element sequence holding the empty string whenever
  \<open>maxLength\<close> is not negative, and the empty sequence only for a negative
  \<open>maxLength\<close>.
\<close>

theorem chunk_empty_text:
  "splitTextIntoChunks [] maxLength = (if 0 \<le> maxLength then [[]] else [])"
  by (simp add: splitTextIntoChunks_def split_ws_Nil)

theorem chunk_empty_text_witness:
  "splitTextIntoChunks [] 200 = [[]] \<and> splitTextIntoChunks [] (- 1) = []"
  using chunk_empty_text [of 200] chunk_empty_text [of "- 1"] by simp

section \<open>Long texts\<close>

text \<open>
  C10. For a text longer than \<open>maxLength\<close> every chunk of the result is non-empty and
  neither begins nor ends with whitespace; a text of whitespace only that is longer than
  \<open>maxLength\<close> has no chunk at all.
\<close>

theorem chunk_long_text_trimmed:
  assumes "int (length s) > maxLength"
  shows "(\<forall>c\<in>set (splitTextIntoChunks s maxLength).
            c \<noteq> [] \<and> \<not> is_ws (hd c) \<and> \<not> is_ws (last c)) \<and>
         ((\<forall>x\<in>set s. is_ws x) \<longrightarrow> splitTextIntoChunks s maxLength = [])"
proof
  have "\<forall>c\<in>set (chunk_loop maxLength (split_ws s) [] []). clean c"
    by (rule chunk_loop_clean) (auto dest: split_ws_no_ws)
  with assms show "\<forall>c\<in>set (splitTextIntoChunks s maxLength).
      c \<noteq> [] \<and> \<not> is_ws (hd c) \<and> \<not> is_ws (last c)"
    by (simp add: splitTextIntoChunks_def clean_def)
next
  show "(\<forall>x\<in>set s. is_ws x) \<longrightarrow> splitTextIntoChunks s maxLength = []"
  proof
    assume "\<forall>x\<in>set s. is_ws x"
    then have "split_ws s = (if s = [] then [[]] else [[], []])"
      by (rule split_ws_all_ws)
    with assms show "splitTextIntoChunks s maxLength = []"
      by (simp add: splitTextIntoChunks_def)
  qed
qed

theorem chunk_long_text_trimmed_witness:
  "int (length (js '' aa bb  cc dd '')) > 5 \<and>
   splitTextIntoChunks (js '' aa bb  cc dd '') 5 = [js ''aa bb'', js ''cc dd''] \<and>
   list_all (\<lambda>c. c \<noteq> [] \<and> \<not> is_ws (hd c) \<and> \<not> is_ws (last c))
     (splitTextIntoChunks (js '' aa bb  cc dd '') 5) \<and>
   int (length (js ''   '')) > 2 \<and> list_all is_ws (js ''   '') \<and>
   splitTextIntoChunks (js ''   '') 2 = []"
proof -
  have l1: "int (length (js '' aa bb  cc dd '')) > 5" by (simp add: js_def)
  have l2: "int (length (js ''   '')) > 2" by (simp add: js_def)
  have w: "\<forall>x\<in>set (js ''   ''). is_ws x" by (simp add: js_def is_ws_def)
  have e: "splitTextIntoChunks (js '' aa bb  cc dd '') 5 = [js ''aa bb'', js ''cc dd'']"
    by code_simp
  show ?thesis
    using chunk_long_text_trimmed [OF l1] chunk_long_text_trimmed [OF l2] l1 l2 w e
    unfolding list_all_iff by blast
qed

text \<open>
  C5. Every chunk is at most \<open>maxLength\<close> long, except a chunk that is one whole word
  of the text (a piece of \<open>split_ws\<close>, with no whitespace inside). Every word of the
  text that is longer than \<open>maxLength\<close> is a chunk, alone. No word is ever cut: the
  words of every chunk are words of the text.
\<close>

theorem chunk_length_bound:
  "(\<forall>c\<in>set (splitTextIntoChunks s maxLength).
      int (length c) \<le> maxLength \<or>
      (c \<in> set (split_ws s) \<and> (\<forall>x\<in>set c. \<not> is_ws x))) \<and>
   (\<forall>w\<in>set (split_ws s).
      w \<noteq> [] \<and> int (length w) > maxLength \<longrightarrow> w \<in> set (splitTextIntoChunks s maxLength)) \<and>
   (\<forall>c\<in>set (splitTextIntoChunks s maxLength). set (split_ws c) \<subseteq> set (split_ws s))"
proof (cases "int (length s) \<le> maxLength")
  case True
  have "\<forall>w\<in>set (split_ws s). \<not> int (length w) > maxLength"
    using True length_split_ws_piece [of _ s] by fastforce
  with True show ?thesis by (simp add: splitTextIntoChunks_def)
next
  case False
  have "\<forall>c\<in>set (chunk_loop maxLength (split_ws s) [] []).
      int (length c) \<le> maxLength \<or> (c \<in> set (split_ws s) \<and> (\<forall>x\<in>set c. \<not> is_ws x))"
  proof (rule chunk_loop_bounded)
    show "\<forall>w\<in>set (split_ws s). w \<in> set (split_ws s) \<and> (\<forall>c\<in>set w. \<not> is_ws c)"
      by (auto dest: split_ws_no_ws)
    show "\<forall>c\<in>set []. int (length c) \<le> maxLength \<or>
        (c \<in> set (split_ws s) \<and> (\<forall>x\<in>set c. \<not> is_ws x))" by simp
    show "([]::jsstring) = [] \<or> int (length ([]::jsstring)) \<le> maxLength \<or>
        (([]::jsstring) \<in> set (split_ws s) \<and> (\<forall>x\<in>set ([]::jsstring). \<not> is_ws x))"
      by simp
  qed
  moreover have "\<forall>w\<in>set (split_ws s). w \<noteq> [] \<and> int (length w) > maxLength \<longrightarrow>
      w \<in> set (chunk_loop maxLength (split_ws s) [] [])"
    by (auto intro!: chunk_loop_overlong_word dest: split_ws_no_ws)
  moreover note chunk_loop_split_whole_words [of maxLength s]
  ultimately show ?thesis using False by (simp add: splitTextIntoChunks_def)
qed

theorem chunk_length_bound_witness:
  "splitTextIntoChunks (js ''aaaaaaa bb cc'') 5 = [js ''aaaaaaa'', js ''bb cc''] \<and>
   split_ws (js ''aaaaaaa bb cc'') = [js ''aaaaaaa'', js ''bb'', js ''cc''] \<and>
   int (length (js ''aaaaaaa'')) > 5 \<and>
   js ''aaaaaaa'' \<in> set (split_ws (js ''aaaaaaa bb cc'')) \<and>
   list_all (\<lambda>x. \<not> is_ws x) (js ''aaaaaaa'') \<and>
   js ''aaaaaaa'' \<in> set (splitTextIntoChunks (js ''aaaaaaa bb cc'') 5) \<and>
   int (length (js ''bb cc'')) \<le> 5 \<and>
   set (split_ws (js ''bb cc'')) \<subseteq> set (split_ws (js ''aaaaaaa bb cc''))"
proof -
  let ?s = "js ''aaaaaaa bb cc''"
  have e: "splitTextIntoChunks ?s 5 = [js ''aaaaaaa'', js ''bb cc'']"
    by code_simp
  have f: "split_ws ?s = [js ''aaaaaaa'', js ''bb'', js ''cc'']"
    by code_simp
  have l: "int (length (js ''aaaaaaa'')) > 5" "int (length (js ''bb cc'')) \<le> 5"
    "js ''aaaaaaa'' \<noteq> []"
    by (simp_all add: js_def)
  have m: "js ''aaaaaaa'' \<in> set (split_ws ?s)" "js ''bb cc'' \<in> set (splitTextIntoChunks ?s 5)"
    "js ''aaaaaaa'' \<in> set (splitTextIntoChunks ?s 5)"
    by (simp_all add: e f)
  note t = chunk_length_bound [of ?s 5]
  have "js ''aaaaaaa'' \<in> set (split_ws ?s) \<and> (\<forall>x\<in>set (js ''aaaaaaa''). \<not> is_ws x)"
    using t m(3) l(1) by fastforce
  moreover have "js ''aaaaaaa'' \<in> set (splitTextIntoChunks ?s 5)"
    using t m(1) l(1,3) by blast
  moreover have "set (split_ws (js ''bb cc'')) \<subseteq> set (split_ws ?s)"
    using t m(2) by blast
  ultimately show ?thesis using e f l unfolding list_all_iff by blast
qed

text \<open>
  A text that is not longer than \<open>maxLength\<close> is returned as it is, with its runs of
  whitespace: joined again, the result is the text itself and not its normal form.
\<close>

theorem chunk_join_counterexample:
  "join_sp (splitTextIntoChunks (js ''a  b'') 200) \<noteq> normalize_ws (js ''a  b'')"
  by code_simp

text \<open>
  C6 (as amended). For a text longer than \<open>maxLength\<close> the chunks joined with single
  spaces are the text with every maximal run of whitespace replaced by one space and the
  leading and trailing whitespace removed; for a text of at most \<open>maxLength\<close> code
  units they are the text itself, unchanged. In both cases the joined chunks and the text
  have the same normal form.
\<close>

theorem chunk_join_reconstructs:
  "join_sp (splitTextIntoChunks s maxLength) =
     (if int (length s) \<le> maxLength then s else normalize_ws s) \<and>
   normalize_ws (join_sp (splitTextIntoChunks s maxLength)) = normalize_ws s"
  by (simp add: splitTextIntoChunks_def chunk_loop_normalize normalize_ws_idem)

theorem chunk_join_reconstructs_witness:
  "join_sp (splitTextIntoChunks (js '' aa bb  cc dd '') 5) = js ''aa bb cc dd'' \<and>
   normalize_ws (js '' aa bb  cc dd '') = js ''aa bb cc dd'' \<and>
   join_sp (splitTextIntoChunks (js ''a  b'') 200) = js ''a  b'' \<and>
   normalize_ws (join_sp (splitTextIntoChunks (js ''a  b'') 200)) = js ''a b''"
proof -
  have n: "normalize_ws (js '' aa bb  cc dd '') = js ''aa bb cc dd''"
    "normalize_ws (js ''a  b'') = js ''a b''"
    by code_simp+
  have l: "\<not> int (length (js '' aa bb  cc dd '')) \<le> 5" "int (length (js ''a  b'')) \<le> 200"
    by (simp_all add: js_def)
  show ?thesis
    using chunk_join_reconstructs [of "js '' aa bb  cc dd ''" 5]
      chunk_join_reconstructs [of "js ''a  b''" 200] n l
    by simp
qed

section \<open>Facts about the highlight sequence\<close>

lemma requested_append: "requested (a @ b) = requested a @ requested b"
  by (simp add: requested_def)

lemma spoken_append: "spoken (a @ b) = spoken a @ spoken b"
  by (simp add: spoken_def)

lemma requested_simps:
  "requested [] = []"
  "requested (RequestTTS c # es) = c # requested es"
  "requested (WebSpeech t # es) = requested es"
  "requested (PlayRecording # es) = requested es"
  "requested (Sleep n # es) = requested es"
  by (simp_all add: requested_def)

lemma spoken_simps:
  "spoken [] = []"
  "spoken (RequestTTS c # es) = spoken es"
  "spoken (WebSpeech t # es) = t # spoken es"
  "spoken (PlayRecording # es) = spoken es"
  "spoken (Sleep n # es) = spoken es"
  by (simp_all add: spoken_def)

lemma resolve_fields:
  "currentThai (resolve st) = currentThai st"
  "highlighted (resolve st) = highlighted st"
  "effects (resolve st) = effects st"
  by (simp_all add: resolve_def split: option.splits)

lemma onplay_fields:
  "currentThai (onplay start n st) = currentThai st"
  "effects (onplay start n st) = effects st"
  "length (highlighted (onplay start n st)) = length (highlighted st)"
  by (simp_all add: onplay_def)

lemma onerror_fields:
  "currentThai (onerror env st) = currentThai st"
  "effects (onerror env st) = effects st @ [WebSpeech (currentThai st)]"
  "highlighted (onerror env st) = highlighted st"
  by (simp_all add: onerror_def fallbackToWebSpeech_def resolve_fields)

lemma audio_handler_fields:
  "currentThai (audio_handler env start n e st) = currentThai st"
  "effects (audio_handler env start n e st) =
     effects st @ (if e = EvPlay then [] else [WebSpeech (currentThai st)])"
  "length (highlighted (audio_handler env start n e st)) = length (highlighted st)"
  by (cases e; simp add: onplay_fields onerror_fields)+

lemma fold_audio_handler_fields:
  "currentThai (fold (audio_handler env start n) es st) = currentThai st \<and>
   effects (fold (audio_handler env start n) es st) =
     effects st @ replicate (length (filter (\<lambda>e. e \<noteq> EvPlay) es)) (WebSpeech (currentThai st)) \<and>
   length (highlighted (fold (audio_handler env start n) es st)) = length (highlighted st)"
proof (induction es arbitrary: st)
  case Nil
  show ?case by simp
next
  case (Cons e es)
  show ?case
    using Cons.IH [of "audio_handler env start n e st"]
    by (simp add: audio_handler_fields)
qed

lemma chunk_audio_fields:
  "currentThai (chunk_audio env chunks i st) = currentThai st"
  "effects (chunk_audio env chunks i st) =
     effects st @ RequestTTS (chunks ! i) #
       replicate (length (filter (\<lambda>e. e \<noteq> EvPlay) (events (tts env i))))
         (WebSpeech (currentThai st))"
  "length (highlighted (chunk_audio env chunks i st)) = length (highlighted st)"
  using fold_audio_handler_fields
    [of env "wordStartIndex chunks i" "length (split_ws (chunks ! i))" "events (tts env i)"
        "st\<lparr>effects := effects st @ [RequestTTS (chunks ! i)]\<rparr>"]
  by (simp_all add: chunk_audio_def Let_def)

lemma playNextChunk_done:
  "length chunks \<le> i \<Longrightarrow>
     playNextChunk env chunks i st =
       resolve (st\<lparr>highlighted := map (\<lambda>word. False) (highlighted st)\<rparr>)"
  by (subst playNextChunk.simps) simp

lemma playNextChunk_ended:
  "i < length chunks \<Longrightarrow> ended (tts env i) \<Longrightarrow>
     playNextChunk env chunks i st =
       playNextChunk env chunks (Suc i) (chunk_audio env chunks i st)"
  by (subst playNextChunk.simps) simp

lemma playNextChunk_pending:
  "i < length chunks \<Longrightarrow> \<not> ended (tts env i) \<Longrightarrow>
     playNextChunk env chunks i st = chunk_audio env chunks i st"
  by (subst playNextChunk.simps) simp

lemma requested_replicate_WebSpeech: "requested (replicate n (WebSpeech t)) = []"
  by (induction n) (simp_all add: requested_simps)

lemma spoken_replicate_WebSpeech: "spoken (replicate n (WebSpeech t)) = replicate n t"
  by (induction n) (simp_all add: spoken_simps)

lemma requested_map_RequestTTS: "requested (map RequestTTS cs) = cs"
  by (induction cs) (simp_all add: requested_simps)

lemma spoken_map_RequestTTS: "spoken (map RequestTTS cs) = []"
  by (induction cs) (simp_all add: spoken_simps)

lemma playNextChunk_fails_at:
  assumes "k < length chunks" and "i \<le> k"
    and "\<forall>j. i \<le> j \<and> j < k \<longrightarrow> ended (tts env j) \<and> set (events (tts env j)) \<subseteq> {EvPlay}"
    and "\<not> ended (tts env k)"
  shows "effects (playNextChunk env chunks i st) =
           effects st @ map RequestTTS (take (Suc k - i) (drop i chunks)) @
           replicate (length (filter (\<lambda>e. e \<noteq> EvPlay) (events (tts env k))))
             (WebSpeech (currentThai st))"
  using assms(2,3)
proof (induction "k - i" arbitrary: i st)
  case 0
  then have i: "i = k" by simp
  have "take (Suc 0) (drop k chunks) = [chunks ! k]"
    using assms(1) by (simp add: take_Suc_conv_app_nth)
  then show ?case
    using assms(1,4) i by (simp add: playNextChunk_pending chunk_audio_fields)
next
  case (Suc n)
  then have lt: "i < k" by simp
  then have il: "i < length chunks" using assms(1) by simp
  have e: "ended (tts env i)" and p: "set (events (tts env i)) \<subseteq> {EvPlay}"
    using Suc.prems(2) lt by auto
  have nf: "filter (\<lambda>e. e \<noteq> EvPlay) (events (tts env i)) = []"
    using p by (auto simp: filter_empty_conv)
  let ?st' = "chunk_audio env chunks i st"
  have st': "effects ?st' = effects st @ [RequestTTS (chunks ! i)]"
    "currentThai ?st' = currentThai st"
    using nf by (simp_all add: chunk_audio_fields)
  have IH: "effects (playNextChunk env chunks (Suc i) ?st') =
      effects ?st' @ map RequestTTS (take (Suc k - Suc i) (drop (Suc i) chunks)) @
      replicate (length (filter (\<lambda>e. e \<noteq> EvPlay) (events (tts env k))))
        (WebSpeech (currentThai ?st'))"
    using Suc.hyps(2) lt Suc.prems(2) by (intro Suc.hyps(1)) auto
  have "take (Suc k - i) (drop i chunks) =
      chunks ! i # take (Suc k - Suc i) (drop (Suc i) chunks)"
  proof -
    have "drop i chunks = chunks ! i # drop (Suc i) chunks"
      using il by (simp add: Cons_nth_drop_Suc)
    moreover have "Suc k - i = Suc (Suc k - Suc i)" using lt by simp
    ultimately show ?thesis by simp
  qed
  then show ?case
    using IH st' by (simp add: playNextChunk_ended [OF il e])
qed

lemma wordStartIndex_Suc:
  "wordStartIndex chunks (Suc k) = wordStartIndex chunks k + length (split_ws (chunks ! k))"
  by (simp add: wordStartIndex_def)

lemma wordStartIndex_sum:
  "k \<le> length chunks \<Longrightarrow>
     wordStartIndex chunks k = sum_list (map (\<lambda>c. length (split_ws c)) (take k chunks))"
proof (induction k)
  case 0
  show ?case by (simp add: wordStartIndex_def)
next
  case (Suc k)
  then show ?case by (simp add: wordStartIndex_Suc take_Suc_conv_app_nth)
qed

lemma playNextChunk_playing:
  assumes "k < length chunks" and "i \<le> k"
    and "\<forall>j. i \<le> j \<and> j < k \<longrightarrow> ended (tts env j)"
    and "events (tts env k) = [EvPlay]" and "\<not> ended (tts env k)"
  shows "highlighted (playNextChunk env chunks i st) =
           map (\<lambda>index. wordStartIndex chunks k \<le> index \<and>
                        index < wordStartIndex chunks k + length (split_ws (chunks ! k)))
             [0..<length (highlighted st)]"
  using assms(2,3)
proof (induction "k - i" arbitrary: i st)
  case 0
  then have i: "i = k" by simp
  show ?case
    using assms(1,4,5) i
    by (simp add: playNextChunk_pending chunk_audio_def onplay_def Let_def)
next
  case (Suc n)
  then have lt: "i < k" by simp
  then have il: "i < length chunks" using assms(1) by simp
  have e: "ended (tts env i)" using Suc.prems(2) lt by simp
  have "highlighted (playNextChunk env chunks (Suc i) (chunk_audio env chunks i st)) =
      map (\<lambda>index. wordStartIndex chunks k \<le> index \<and>
                   index < wordStartIndex chunks k + length (split_ws (chunks ! k)))
        [0..<length (highlighted (chunk_audio env chunks i st))]"
    using Suc.hyps(2) lt Suc.prems(2) by (intro Suc.hyps(1)) auto
  then show ?case
    by (simp add: playNextChunk_ended [OF il e] chunk_audio_fields)
qed

lemma playNextChunk_effects:
  "\<exists>hl n. effects (playNextChunk env chunks i st) = effects st @ hl \<and>
          (\<forall>e\<in>set hl. e \<noteq> PlayRecording \<and> (\<forall>ms. e \<noteq> Sleep ms)) \<and>
          requested hl = take n (drop i chunks)"
proof (induction "length chunks - i" arbitrary: i st)
  case 0
  then have "length chunks \<le> i" by simp
  then have "effects (playNextChunk env chunks i st) = effects st @ []"
    by (simp add: playNextChunk_done resolve_fields)
  moreover have "requested [] = take 0 (drop i chunks)" by (simp add: requested_simps)
  ultimately show ?case by fastforce
next
  case (Suc m)
  then have il: "i < length chunks" by simp
  let ?st' = "chunk_audio env chunks i st"
  let ?a = "RequestTTS (chunks ! i) #
      replicate (length (filter (\<lambda>e. e \<noteq> EvPlay) (events (tts env i))))
        (WebSpeech (currentThai st))"
  have a: "effects ?st' = effects st @ ?a" by (simp add: chunk_audio_fields)
  have ok: "\<forall>e\<in>set ?a. e \<noteq> PlayRecording \<and> (\<forall>ms. e \<noteq> Sleep ms)" by auto
  have ra: "requested ?a = [chunks ! i]"
    by (simp add: requested_simps requested_replicate_WebSpeech)
  have d: "drop i chunks = chunks ! i # drop (Suc i) chunks"
    using il by (simp add: Cons_nth_drop_Suc)
  show ?case
  proof (cases "ended (tts env i)")
    case False
    have "requested ?a = take 1 (drop i chunks)" using ra d by simp
    with a ok show ?thesis
      unfolding playNextChunk_pending [OF il False] by blast
  next
    case True
    have "m = length chunks - Suc i" using Suc.hyps(2) by simp
    from Suc.hyps(1) [OF this, of ?st'] obtain hl n where
      h: "effects (playNextChunk env chunks (Suc i) ?st') = effects ?st' @ hl"
        "\<forall>e\<in>set hl. e \<noteq> PlayRecording \<and> (\<forall>ms. e \<noteq> Sleep ms)"
        "requested hl = take n (drop (Suc i) chunks)"
      by blast
    have "effects (playNextChunk env chunks i st) = effects st @ (?a @ hl)"
      using h(1) a by (simp add: playNextChunk_ended [OF il True])
    moreover have "\<forall>e\<in>set (?a @ hl). e \<noteq> PlayRecording \<and> (\<forall>ms. e \<noteq> Sleep ms)"
      using ok h(2) by auto
    moreover have "requested (?a @ hl) = take (Suc n) (drop i chunks)"
    proof -
      have "requested (?a @ hl) = requested ?a @ requested hl" by (rule requested_append)
      also have "\<dots> = chunks ! i # take n (drop (Suc i) chunks)"
        by (simp only: ra h(3) append_Cons append_Nil)
      also have "\<dots> = take (Suc n) (drop i chunks)" using d by simp
      finally show ?thesis .
    qed
    ultimately show ?thesis by blast
  qed
qed

lemma speakThaiWithHighlighting_effects:
  "\<exists>hl n. effects (speakThaiWithHighlighting env st) = effects st @ hl \<and>
          (\<forall>e\<in>set hl. e \<noteq> PlayRecording \<and> (\<forall>ms. e \<noteq> Sleep ms)) \<and>
          requested hl = take n (splitTextIntoChunks (currentThai st) 200)"
proof (cases "currentThai st = [] \<or> currentThai st = js ''Translation failed''")
  case True
  then have "effects (speakThaiWithHighlighting env st) = effects st @ []"
    by (auto simp: speakThaiWithHighlighting_def resolve_fields)
  moreover have "requested [] = take 0 (splitTextIntoChunks (currentThai st) 200)"
    by (simp add: requested_simps)
  ultimately show ?thesis by fastforce
next
  case False
  then have "speakThaiWithHighlighting env st =
      playNextChunk env (splitTextIntoChunks (currentThai st) 200) 0 (st\<lparr>completion := None\<rparr>)"
    by (simp add: speakThaiWithHighlighting_def)
  then show ?thesis
    using playNextChunk_effects
      [of env "splitTextIntoChunks (currentThai st) 200" 0 "st\<lparr>completion := None\<rparr>"]
    by simp
qed

lemma exhausted_clears_highlights:
  assumes "\<forall>j<length chunks. ended (tts env j)" and "i \<le> length chunks"
  shows "highlighted (playNextChunk env chunks i st) = replicate (length (highlighted st)) False"
  using assms(2)
proof (induction "length chunks - i" arbitrary: i st)
  case 0
  then have "length chunks \<le> i" by simp
  then show ?case by (simp add: playNextChunk_done resolve_fields map_replicate_const)
next
  case (Suc m)
  then have il: "i < length chunks" by simp
  then have e: "ended (tts env i)" using assms(1) by simp
  have "highlighted (playNextChunk env chunks (Suc i) (chunk_audio env chunks i st)) =
      replicate (length (highlighted (chunk_audio env chunks i st))) False"
    using Suc.hyps(2) il by (intro Suc.hyps(1)) auto
  then show ?case by (simp add: playNextChunk_ended [OF il e] chunk_audio_fields)
qed

lemma split_ws_two_words:
  assumes "\<forall>c\<in>set u. \<not> is_ws c" and "\<forall>c\<in>set v. \<not> is_ws c"
  shows "split_ws (u @ SP # v) = [u, v]"
proof -
  have d: "dropWhile (\<lambda>c. \<not> is_ws c) (u @ SP # v) = SP # v"
    using assms(1) by (simp add: is_ws_SP)
  have t: "takeWhile (\<lambda>c. \<not> is_ws c) (u @ SP # v) = u"
    using assms(1) by (simp add: is_ws_SP)
  have v: "dropWhile is_ws v = v" using assms(2) by (cases v) auto
  have "dropWhile (\<lambda>c. \<not> is_ws c) v = []" using assms(2) by simp
  then have "split_ws v = [v]" by (rule split_ws_last_word)
  then show ?thesis using split_ws_word [OF d] t v by simp
qed

section \<open>The highlight sequence and the playback cycle\<close>

text \<open>
  C8. When the translated text is empty, or is the text stored for a failed translation,
  \<open>speakThaiWithHighlighting\<close> resolves its promise at once and changes nothing else:
  no effect is added (no synthesis request, no playback, no fallback speech) and the
  highlight flags stay as they were.
\<close>

theorem degenerate_text_resolves:
  "currentThai st = [] \<or> currentThai st = js ''Translation failed'' \<Longrightarrow>
     speakThaiWithHighlighting env st = st\<lparr>completion := Some (highlighted st)\<rparr>"
  by (auto simp: speakThaiWithHighlighting_def resolve_def)

theorem degenerate_text_resolves_witness:
  "speakThaiWithHighlighting
     \<lparr>recording = True, tts = (\<lambda>i. Playback [EvPlay] True), speech = (\<lambda>n. True)\<rparr>
     \<lparr>currentThai = js ''Translation failed'', highlighted = [True, False],
      effects = [PlayRecording, Sleep 500], completion = None\<rparr> =
   \<lparr>currentThai = js ''Translation failed'', highlighted = [True, False],
    effects = [PlayRecording, Sleep 500], completion = Some [True, False]\<rparr> \<and>
   speakThaiWithHighlighting
     \<lparr>recording = True, tts = (\<lambda>i. Playback [EvPlay] True), speech = (\<lambda>n. True)\<rparr>
     \<lparr>currentThai = [], highlighted = [], effects = [], completion = None\<rparr> =
   \<lparr>currentThai = [], highlighted = [], effects = [], completion = Some []\<rparr>"
  using degenerate_text_resolves
      [of "\<lparr>currentThai = js ''Translation failed'', highlighted = [True, False],
            effects = [PlayRecording, Sleep 500], completion = None\<rparr>"
          "\<lparr>recording = True, tts = (\<lambda>i. Playback [EvPlay] True), speech = (\<lambda>n. True)\<rparr>"]
    degenerate_text_resolves
      [of "\<lparr>currentThai = [], highlighted = [], effects = [], completion = None\<rparr>"
          "\<lparr>recording = True, tts = (\<lambda>i. Playback [EvPlay] True), speech = (\<lambda>n. True)\<rparr>"]
  by simp

text \<open>
  C1. When the chunks before chunk \<open>k\<close> play to their end without a failure and the
  playback of chunk \<open>k\<close> fails (an \<open>error\<close> event or a rejected \<open>play()\<close>, and no
  \<open>ended\<close> event), the sequence requests chunks \<open>0..k\<close> from the synthesis endpoint and
  none after them, and every text it hands to the fallback speaker, of which there is at
  least one, is the complete translated text.
\<close>

theorem chunk_failure_speaks_whole_text:
  assumes "currentThai st \<noteq> []" and "currentThai st \<noteq> js ''Translation failed''"
    and "k < length (splitTextIntoChunks (currentThai st) 200)"
    and "\<forall>j<k. ended (tts env j) \<and> set (events (tts env j)) \<subseteq> {EvPlay}"
    and "\<not> ended (tts env k)"
    and "EvError \<in> set (events (tts env k)) \<or> EvRejected \<in> set (events (tts env k))"
  shows "requested (effects (speakThaiWithHighlighting env st)) =
           requested (effects st) @ take (Suc k) (splitTextIntoChunks (currentThai st) 200) \<and>
         (\<exists>n>0. spoken (effects (speakThaiWithHighlighting env st)) =
                  spoken (effects st) @ replicate n (currentThai st))"
proof -
  let ?chunks = "splitTextIntoChunks (currentThai st) 200"
  let ?st = "st\<lparr>completion := None\<rparr>"
  let ?n = "length (filter (\<lambda>e. e \<noteq> EvPlay) (events (tts env k)))"
  have s: "speakThaiWithHighlighting env st = playNextChunk env ?chunks 0 ?st"
    using assms(1,2) by (simp add: speakThaiWithHighlighting_def)
  have "effects (playNextChunk env ?chunks 0 ?st) =
      effects ?st @ map RequestTTS (take (Suc k - 0) (drop 0 ?chunks)) @
      replicate ?n (WebSpeech (currentThai ?st))"
    using assms(3,4,5) by (intro playNextChunk_fails_at) auto
  then have e: "effects (speakThaiWithHighlighting env st) =
      effects st @ map RequestTTS (take (Suc k) ?chunks) @
      replicate ?n (WebSpeech (currentThai st))"
    using s by simp
  have "filter (\<lambda>e. e \<noteq> EvPlay) (events (tts env k)) \<noteq> []"
    using assms(6) by (auto simp: filter_empty_conv)
  then have "0 < ?n" by simp
  moreover have "spoken (effects (speakThaiWithHighlighting env st)) =
      spoken (effects st) @ replicate ?n (currentThai st)"
    by (simp add: e spoken_append spoken_map_RequestTTS spoken_replicate_WebSpeech)
  moreover have "requested (effects (speakThaiWithHighlighting env st)) =
      requested (effects st) @ take (Suc k) ?chunks"
    by (simp add: e requested_append requested_map_RequestTTS requested_replicate_WebSpeech)
  ultimately show ?thesis by blast
qed

theorem chunk_failure_speaks_whole_text_witness:
  "splitTextIntoChunks (replicate 150 0x0E01 @ SP # replicate 60 0x0E02) 200 =
     [replicate 150 0x0E01, replicate 60 0x0E02] \<and>
   requested (effects (speakThaiWithHighlighting
     \<lparr>recording = True,
      tts = (\<lambda>i. if i = 0 then Playback [EvPlay] True else Playback [EvPlay, EvError] False),
      speech = (\<lambda>n. True)\<rparr>
     \<lparr>currentThai = replicate 150 0x0E01 @ SP # replicate 60 0x0E02,
      highlighted = [False, False], effects = [], completion = None\<rparr>)) =
     [replicate 150 0x0E01, replicate 60 0x0E02] \<and>
   (\<exists>n>0. spoken (effects (speakThaiWithHighlighting
     \<lparr>recording = True,
      tts = (\<lambda>i. if i = 0 then Playback [EvPlay] True else Playback [EvPlay, EvError] False),
      speech = (\<lambda>n. True)\<rparr>
     \<lparr>currentThai = replicate 150 0x0E01 @ SP # replicate 60 0x0E02,
      highlighted = [False, False], effects = [], completion = None\<rparr>)) =
     replicate n (replicate 150 0x0E01 @ SP # replicate 60 0x0E02))"
proof -
  let ?u = "replicate 150 (0x0E01 :: jschar)"
  let ?v = "replicate 60 (0x0E02 :: jschar)"
  let ?T = "?u @ SP # ?v"
  let ?env = "\<lparr>recording = True,
      tts = (\<lambda>i. if i = 0 then Playback [EvPlay] True else Playback [EvPlay, EvError] False),
      speech = (\<lambda>n. True)\<rparr>"
  let ?st = "\<lparr>currentThai = ?T, highlighted = [False, False],
      effects = [], completion = None\<rparr>"
  have nw: "\<forall>c\<in>set ?u. \<not> is_ws c" "\<forall>c\<in>set ?v. \<not> is_ws c"
    by (simp_all add: is_ws_def)
  have sp: "split_ws ?T = [?u, ?v]" by (rule split_ws_two_words [OF nw])
  have c: "splitTextIntoChunks ?T 200 = [?u, ?v]"
    by (simp add: splitTextIntoChunks_def sp trim_no_ws [OF nw(1)] trim_no_ws [OF nw(2)])
  have h1: "currentThai ?st \<noteq> []" by simp
  have "length (currentThai ?st) \<noteq> length (js ''Translation failed'')"
    by (simp add: js_def)
  then have h2: "currentThai ?st \<noteq> js ''Translation failed''" by metis
  have h3: "1 < length (splitTextIntoChunks (currentThai ?st) 200)" using c by simp
  have h4: "\<forall>j<1. ended (tts ?env j) \<and> set (events (tts ?env j)) \<subseteq> {EvPlay}" by simp
  have h5: "\<not> ended (tts ?env 1)" by simp
  have h6: "EvError \<in> set (events (tts ?env 1)) \<or> EvRejected \<in> set (events (tts ?env 1))"
    by simp
  show ?thesis
    using chunk_failure_speaks_whole_text [OF h1 h2 h3 h4 h5 h6] c
    by (simp add: requested_simps spoken_simps numeral_2_eq_2)
qed

text \<open>
  C3. The start of chunk \<open>i\<close>'s word range is the sum of the token counts
  (\<open>split(/\s+/).length\<close>) of the chunks before it; once the chunks before \<open>i\<close> have
  ended and chunk \<open>i\<close> has started to play, the highlighted words are exactly those
  whose position lies in the range from the start to the start plus the token count of
  chunk \<open>i\<close>, and the number of words is unchanged. For a chunk that is not empty and
  neither begins nor ends with whitespace, as every chunk of a long text is, no piece of
  the split is empty (\<open>split_ws_clean\<close>), so its token count is its number of words.
\<close>

theorem chunk_highlights_its_word_range:
  assumes "i < length chunks" and "\<forall>j<i. ended (tts env j)"
    and "events (tts env i) = [EvPlay]" and "\<not> ended (tts env i)"
  shows "wordStartIndex chunks i = sum_list (map (\<lambda>c. length (split_ws c)) (take i chunks)) \<and>
         length (highlighted (playNextChunk env chunks 0 st)) = length (highlighted st) \<and>
         (\<forall>index < length (highlighted st).
            highlighted (playNextChunk env chunks 0 st) ! index \<longleftrightarrow>
              wordStartIndex chunks i \<le> index \<and>
              index < wordStartIndex chunks i + length (split_ws (chunks ! i)))"
proof -
  have "highlighted (playNextChunk env chunks 0 st) =
      map (\<lambda>index. wordStartIndex chunks i \<le> index \<and>
                   index < wordStartIndex chunks i + length (split_ws (chunks ! i)))
        [0..<length (highlighted st)]"
    using assms by (intro playNextChunk_playing) auto
  then show ?thesis using assms(1) by (simp add: wordStartIndex_sum)
qed

theorem chunk_highlights_its_word_range_witness:
  "wordStartIndex [js ''a b'', js ''c d e''] 1 = 2 \<and>
   length (split_ws (js ''c d e'')) = 3 \<and>
   length (highlighted (playNextChunk
     \<lparr>recording = True, tts = (\<lambda>j. Playback [EvPlay] (j < 1)), speech = (\<lambda>n. True)\<rparr>
     [js ''a b'', js ''c d e''] 0
     \<lparr>currentThai = js ''a b c d e'', highlighted = replicate 5 False, effects = [],
      completion = None\<rparr>)) = 5 \<and>
   highlighted (playNextChunk
     \<lparr>recording = True, tts = (\<lambda>j. Playback [EvPlay] (j < 1)), speech = (\<lambda>n. True)\<rparr>
     [js ''a b'', js ''c d e''] 0
     \<lparr>currentThai = js ''a b c d e'', highlighted = replicate 5 False, effects = [],
      completion = None\<rparr>) = [False, False, True, True, True]"
proof -
  let ?chunks = "[js ''a b'', js ''c d e'']"
  let ?env = "\<lparr>recording = True, tts = (\<lambda>j. Playback [EvPlay] (j < 1)), speech = (\<lambda>n. True)\<rparr>"
  let ?st = "\<lparr>currentThai = js ''a b c d e'', highlighted = replicate 5 False, effects = [],
      completion = None\<rparr>"
  have h1: "1 < length ?chunks" by simp
  have h2: "\<forall>j<1. ended (tts ?env j)" by simp
  have h3: "events (tts ?env 1) = [EvPlay]" by simp
  have h4: "\<not> ended (tts ?env 1)" by simp
  have c: "length (split_ws (js ''a b'')) = 2" "length (split_ws (js ''c d e'')) = 3"
    by code_simp+
  have v: "highlighted (playNextChunk ?env ?chunks 0 ?st) = [False, False, True, True, True]"
    by code_simp
  show ?thesis
    using chunk_highlights_its_word_range [OF h1 h2 h3 h4, of ?st] c v by simp
qed

text \<open>
  C9. \<open>playbackCycle\<close> plays the recording and goes no further while that playback has
  not finished; once it has, the cycle sleeps 500 ms and then runs
  \<open>speakThaiWithHighlighting\<close> on the state as it is then (the translated text, the
  displayed words). Its effects are the playback, the sleep of 500 and the effects of the
  highlight sequence, in this order; the highlight sequence neither plays the recording
  nor sleeps, and the chunks it requests are the first chunks of
  \<open>splitTextIntoChunks currentThai 200\<close>.
\<close>

theorem playback_cycle_three_steps:
  "(\<not> recording env \<longrightarrow>
      playbackCycle env st = st\<lparr>effects := effects st @ [PlayRecording]\<rparr>) \<and>
   (recording env \<longrightarrow>
      playbackCycle env st =
        speakThaiWithHighlighting env (st\<lparr>effects := effects st @ [PlayRecording, Sleep 500]\<rparr>) \<and>
      (\<exists>hl n. effects (playbackCycle env st) = effects st @ [PlayRecording, Sleep 500] @ hl \<and>
              (\<forall>e\<in>set hl. e \<noteq> PlayRecording \<and> (\<forall>ms. e \<noteq> Sleep ms)) \<and>
              requested hl = take n (splitTextIntoChunks (currentThai st) 200)))"
proof (cases "recording env")
  case False
  then show ?thesis by (simp add: playbackCycle_def playAudio_def)
next
  case True
  let ?st2 = "st\<lparr>effects := effects st @ [PlayRecording, Sleep 500]\<rparr>"
  have p: "playbackCycle env st = speakThaiWithHighlighting env ?st2"
    using True by (simp add: playbackCycle_def playAudio_def sleep_def)
  from speakThaiWithHighlighting_effects [of env ?st2] obtain hl n where
    "effects (speakThaiWithHighlighting env ?st2) = effects ?st2 @ hl"
    "\<forall>e\<in>set hl. e \<noteq> PlayRecording \<and> (\<forall>ms. e \<noteq> Sleep ms)"
    "requested hl = take n (splitTextIntoChunks (currentThai ?st2) 200)"
    by blast
  then have "effects (playbackCycle env st) = effects st @ [PlayRecording, Sleep 500] @ hl \<and>
      (\<forall>e\<in>set hl. e \<noteq> PlayRecording \<and> (\<forall>ms. e \<noteq> Sleep ms)) \<and>
      requested hl = take n (splitTextIntoChunks (currentThai st) 200)"
    using p by simp
  then show ?thesis using True p by blast
qed

theorem playback_cycle_three_steps_witness:
  "playbackCycle
     \<lparr>recording = True, tts = (\<lambda>i. Playback [EvPlay] True), speech = (\<lambda>n. True)\<rparr>
     \<lparr>currentThai = js ''sawatdi khrap'', highlighted = [False, False], effects = [],
      completion = None\<rparr> =
   \<lparr>currentThai = js ''sawatdi khrap'', highlighted = [False, False],
    effects = [PlayRecording, Sleep 500, RequestTTS (js ''sawatdi khrap'')],
    completion = Some [False, False]\<rparr> \<and>
   splitTextIntoChunks (js ''sawatdi khrap'') 200 = [js ''sawatdi khrap''] \<and>
   playbackCycle
     \<lparr>recording = False, tts = (\<lambda>i. Playback [EvPlay] True), speech = (\<lambda>n. True)\<rparr>
     \<lparr>currentThai = js ''sawatdi khrap'', highlighted = [False, False], effects = [],
      completion = None\<rparr> =
   \<lparr>currentThai = js ''sawatdi khrap'', highlighted = [False, False],
    effects = [PlayRecording], completion = None\<rparr>"
proof -
  let ?st = "\<lparr>currentThai = js ''sawatdi khrap'', highlighted = [False, False], effects = [],
      completion = None\<rparr>"
  let ?env = "\<lparr>recording = True, tts = (\<lambda>i. Playback [EvPlay] True), speech = (\<lambda>n. True)\<rparr>"
  let ?env' = "\<lparr>recording = False, tts = (\<lambda>i. Playback [EvPlay] True), speech = (\<lambda>n. True)\<rparr>"
  have s: "speakThaiWithHighlighting ?env (?st\<lparr>effects := effects ?st @ [PlayRecording, Sleep 500]\<rparr>) =
      \<lparr>currentThai = js ''sawatdi khrap'', highlighted = [False, False],
       effects = [PlayRecording, Sleep 500, RequestTTS (js ''sawatdi khrap'')],
       completion = Some [False, False]\<rparr>"
    by code_simp
  have c: "splitTextIntoChunks (js ''sawatdi khrap'') 200 = [js ''sawatdi khrap'']"
    by code_simp
  show ?thesis
    using playback_cycle_three_steps [of ?env ?st] playback_cycle_three_steps [of ?env' ?st] s c
    by simp
qed

text \<open>
  C2. The claim holds on the path where every chunk ends (\<open>exhausted_clears_highlights\<close>
  above). On the fallback path it fails: \<open>onerror\<close> and the \<open>catch\<close> handler resolve
  the promise when the fallback speech finishes, and never remove the class. Here the
  text is the two Thai words for "hello", one chunk and two displayed words; the chunk's element fires \<open>play\<close>, then
  \<open>error\<close>, and the fallback speech finishes. The promise is resolved with both words
  still highlighted.
\<close>

theorem fallback_keeps_highlight:
  "speakThaiWithHighlighting
     \<lparr>recording = True, tts = (\<lambda>i. Playback [EvPlay, EvError] False), speech = (\<lambda>n. True)\<rparr>
     \<lparr>currentThai =
        [0x0E2A, 0x0E27, 0x0E31, 0x0E2A, 0x0E14, 0x0E35, 0x20, 0x0E04, 0x0E23, 0x0E31, 0x0E1A],
      highlighted = [False, False], effects = [], completion = None\<rparr> =
   \<lparr>currentThai =
      [0x0E2A, 0x0E27, 0x0E31, 0x0E2A, 0x0E14, 0x0E35, 0x20, 0x0E04, 0x0E23, 0x0E31, 0x0E1A],
    highlighted = [True, True],
    effects =
      [RequestTTS
         [0x0E2A, 0x0E27, 0x0E31, 0x0E2A, 0x0E14, 0x0E35, 0x20, 0x0E04, 0x0E23, 0x0E31, 0x0E1A],
       WebSpeech
         [0x0E2A, 0x0E27, 0x0E31, 0x0E2A, 0x0E14, 0x0E35, 0x20, 0x0E04, 0x0E23, 0x0E31, 0x0E1A]],
    completion = Some [True, True]\<rparr>"
  by code_simp

end
